theory Spec2Isabelle
  imports Complex_Main
begin


section \<open>Data model\<close>

text \<open>
  The program is a C expression evaluator.  A token is a kind tag with a union of a number,
  an operator character and an identifier string; the kind decides which member is live,
  so a token is a datatype.  \<open>'r\<close> is the C type \<open>real\<close> (a \<open>double\<close>).
\<close>

datatype 'r Tok = TokNull | TokOp char | TokNum 'r | TokIdent string

text \<open>
  Every \<open>exit(1)\<close> of the source is an error value.  \<open>Undefined_Behaviour\<close> stands for the
  places where the C text leaves the behaviour open: an access outside \<open>toks\<close>, a
  \<open>memmove\<close> whose length has wrapped around, an out-of-range registry write, and a read
  of the \<open>Num\<close> member of a token that is not a number.
\<close>

datatype error =
    UnmatchedCloseParen
  | UnrecognizedCharacter nat char
  | UnmatchedOpenParen
  | ExpectedDelimiter
  | UncollapsibleUnaryMinus
  | InvalidTokenOrder
  | ArityMismatch string nat nat
  | UnknownFunction string
  | UnknownVariable string
  | UnhandledOperator char
  | Undefined_Behaviour

text \<open>
  Double arithmetic and the functions of the C library (\<open>strtod\<close>, \<open>pow\<close>, \<open>sqrt\<close>, ...)
  are not code of this program.  They are a parameter of the model: a record of operations
  on the number type.  \<open>c_neg_one\<close> is the constant \<open>-1.0\<close>; \<open>M_PI\<close> and \<open>M_E\<close> are the
  constants of \<open>math.h\<close>.
\<close>

record 'r libm =
  c_strtod :: "string \<Rightarrow> 'r"
  c_add :: "'r \<Rightarrow> 'r \<Rightarrow> 'r"
  c_sub :: "'r \<Rightarrow> 'r \<Rightarrow> 'r"
  c_mul :: "'r \<Rightarrow> 'r \<Rightarrow> 'r"
  c_div :: "'r \<Rightarrow> 'r \<Rightarrow> 'r"
  c_neg_one :: "'r"
  c_pow :: "'r \<Rightarrow> 'r \<Rightarrow> 'r"
  c_sqrt :: "'r \<Rightarrow> 'r"
  c_fmod :: "'r \<Rightarrow> 'r \<Rightarrow> 'r"
  c_round :: "'r \<Rightarrow> 'r"
  c_floor :: "'r \<Rightarrow> 'r"
  c_ceil :: "'r \<Rightarrow> 'r"
  c_sin :: "'r \<Rightarrow> 'r"
  c_cos :: "'r \<Rightarrow> 'r"
  M_PI :: "'r"
  M_E :: "'r"

subsection \<open>The token buffer\<close>

text \<open>
  \<open>toks\<close> is a static array of \<open>TOKS_CAP\<close> tokens, zero-initialised, so every cell that
  was never written holds \<open>TokNull\<close>.  The model keeps the written prefix of the array as a
  list; \<open>toks_size\<close> is the global of the same name.  Cells between \<open>toks_size\<close> and the
  end of the list are the stale tokens that \<open>del_toks\<close> leaves behind.
\<close>

definition TOKS_CAP :: nat where
  "TOKS_CAP = 65536"

record 'r state =
  toks :: "'r Tok list"
  toks_size :: nat

definition init_state :: "'r state" where
  "init_state = \<lparr>toks = [], toks_size = 0\<rparr>"

text \<open>Reading \<open>toks[i]\<close>: a cell of the array, or an access outside it.\<close>

definition tok_at :: "'r state \<Rightarrow> nat \<Rightarrow> error + 'r Tok" where
  "tok_at s i =
     (if TOKS_CAP \<le> i then Inl Undefined_Behaviour
      else if i < length (toks s) then Inr (toks s ! i)
      else Inr TokNull)"

text \<open>Writing \<open>toks[i] = t\<close> for an index inside the array.\<close>

definition put_tok :: "nat \<Rightarrow> 'r Tok \<Rightarrow> 'r state \<Rightarrow> 'r state" where
  "put_tok i t s =
     (if i < length (toks s) then s\<lparr>toks := (toks s)[i := t]\<rparr>
      else s\<lparr>toks := toks s @ replicate (i - length (toks s)) TokNull @ [t]\<rparr>)"

subsection \<open>Operator tables and character classes\<close>

text \<open>
  \<open>op_prec\<close> and \<open>op_order\<close> are arrays of 256 entries with designated initialisers; every
  entry that is not named is zero, that is precedence 0 and \<open>OrderLtr\<close>.
\<close>

definition op_prec :: "char \<Rightarrow> nat" where
  "op_prec c =
     (if c = CHR ''+'' \<or> c = CHR ''-'' then 1
      else if c = CHR ''*'' \<or> c = CHR ''/'' then 2
      else if c = CHR ''^'' then 3
      else 0)"

datatype order = OrderLtr | OrderRtl

definition op_order :: "char \<Rightarrow> order" where
  "op_order c = (if c = CHR ''^'' then OrderRtl else OrderLtr)"

definition IS_FLOAT :: "char \<Rightarrow> bool" where
  "IS_FLOAT c =
     ((of_char (CHR ''0'') \<le> (of_char c :: nat) \<and> (of_char c :: nat) \<le> of_char (CHR ''9''))
      \<or> c = CHR ''.'')"

definition IS_ALPHA :: "char \<Rightarrow> bool" where
  "IS_ALPHA c =
     ((of_char (CHR ''A'') \<le> (of_char c :: nat) \<and> (of_char c :: nat) \<le> of_char (CHR ''Z''))
      \<or> (of_char (CHR ''a'') \<le> (of_char c :: nat) \<and> (of_char c :: nat) \<le> of_char (CHR ''z'')))"

section \<open>Symbol registries\<close>

record 'r Var =
  var_name :: string
  var_val :: 'r

record 'r Function =
  fn_name :: string
  fn_func :: "'r list \<Rightarrow> 'r"
  fn_n_args :: nat

definition VARS_CAP :: nat where
  "VARS_CAP = 256"

definition FUNCTIONS_CAP :: nat where
  "FUNCTIONS_CAP = 256"

text \<open>
  \<open>vars\<close> and \<open>functions\<close> are arrays with a size counter; the model keeps the live
  entries, in array order, as a list.  \<open>set_var\<close> overwrites the first entry with the name
  and otherwise writes at index \<open>vars_size\<close> without a capacity check.
\<close>

fun set_var_loop :: "string \<Rightarrow> 'r \<Rightarrow> 'r Var list \<Rightarrow> 'r Var list option" where
  "set_var_loop n v [] = None"
| "set_var_loop n v (x # xs) =
     (if var_name x = n then Some (x\<lparr>var_val := v\<rparr> # xs)
      else map_option ((#) x) (set_var_loop n v xs))"

definition set_var :: "string \<Rightarrow> 'r \<Rightarrow> 'r Var list \<Rightarrow> error + 'r Var list" where
  "set_var n v vs =
     (case set_var_loop n v vs of
        Some vs' \<Rightarrow> Inr vs'
      | None \<Rightarrow>
          if length vs < VARS_CAP then Inr (vs @ [\<lparr>var_name = n, var_val = v\<rparr>])
          else Inl Undefined_Behaviour)"

text \<open>\<open>unset_var\<close> removes the first entry with the name and moves the rest down.\<close>

fun unset_var :: "string \<Rightarrow> 'r Var list \<Rightarrow> 'r Var list" where
  "unset_var n [] = []"
| "unset_var n (x # xs) = (if var_name x = n then xs else x # unset_var n xs)"

definition add_func :: "string \<Rightarrow> ('r list \<Rightarrow> 'r) \<Rightarrow> nat \<Rightarrow> 'r Function list \<Rightarrow> 'r Function list" where
  "add_func n f k fs =
     (if length fs < FUNCTIONS_CAP then fs @ [\<lparr>fn_name = n, fn_func = f, fn_n_args = k\<rparr>]
      else fs)"

section \<open>Tokenizer\<close>

definition push_tok :: "'r Tok \<Rightarrow> 'r state \<Rightarrow> 'r state" where
  "push_tok t s =
     (if toks_size s < TOKS_CAP then (put_tok (toks_size s) t s)\<lparr>toks_size := toks_size s + 1\<rparr>
      else s)"

text \<open>
  The inner \<open>while (i < 15 && IS_FLOAT(curr[i]))\<close> copies characters into \<open>buf\<close>; \<open>i\<close> is
  the loop counter and the list is the input from \<open>curr[i]\<close> on.  The result is what was
  copied to \<open>buf[1..]\<close>.  The terminating NUL of the input is not in the class, so the loop
  stops at the end of the list.
\<close>

fun float_run :: "nat \<Rightarrow> string \<Rightarrow> string" where
  "float_run i [] = []"
| "float_run i (c # cs) = (if i < 15 \<and> IS_FLOAT c then c # float_run (Suc i) cs else [])"

fun alpha_run :: "nat \<Rightarrow> string \<Rightarrow> string" where
  "alpha_run i [] = []"
| "alpha_run i (c # cs) = (if i < 31 \<and> IS_ALPHA c then c # alpha_run (Suc i) cs else [])"

text \<open>\<open>last\<close>: the token at \<open>toks[toks_size-1]\<close>, or a \<open>TokNull\<close> token when the buffer is empty.\<close>

definition last_tok :: "'r state \<Rightarrow> 'r Tok" where
  "last_tok s =
     (if toks_size s > 0
      then (case tok_at s (toks_size s - 1) of Inr t \<Rightarrow> t | Inl e \<Rightarrow> TokNull)
      else TokNull)"

text \<open>
  The test before a number and before an identifier:
  \<open>last.kind == TokIdent || (last.kind == TokOp && last.Char == ')') || last.kind == TokNum\<close>.
\<close>

fun mul_before_term :: "'r Tok \<Rightarrow> bool" where
  "mul_before_term (TokIdent n) = True"
| "mul_before_term (TokOp c) = (c = CHR '')'')"
| "mul_before_term (TokNum x) = True"
| "mul_before_term TokNull = False"

text \<open>
  The test before an opening parenthesis:
  \<open>(last.kind == TokOp && last.Char == ')') || last.kind == TokNum\<close>.
\<close>

fun mul_before_paren :: "'r Tok \<Rightarrow> bool" where
  "mul_before_paren (TokOp c) = (c = CHR '')'')"
| "mul_before_paren (TokNum x) = True"
| "mul_before_paren (TokIdent n) = False"
| "mul_before_paren TokNull = False"

definition is_op_char :: "char \<Rightarrow> bool" where
  "is_op_char c = (c \<in> set ''(),+-*/^'')"

text \<open>
  The \<open>for\<close> loop of \<open>tokenize\<close>.  The list is the input from \<open>curr\<close> on, \<open>pos\<close> is
  \<open>curr - expr\<close>, \<open>depth\<close> is \<open>paren_depth\<close>.  The loop ends at the terminating NUL: at the
  end of the list, or at a NUL character inside it.
\<close>

function tokenize_loop ::
  "'r libm \<Rightarrow> string \<Rightarrow> nat \<Rightarrow> nat \<Rightarrow> 'r state \<Rightarrow> error + (nat \<times> 'r state)" where
  "tokenize_loop L [] pos depth s = Inr (depth, s)"
| "tokenize_loop L (c # cs) pos depth s =
     (if c = CHR 0x00 then Inr (depth, s)
      else if c = CHR '' '' then tokenize_loop L cs (pos + 1) depth s
      else if IS_FLOAT c then
        (let buf = c # float_run 1 cs;
             num = c_strtod L buf;
             s1 = (if mul_before_term (last_tok s) then push_tok (TokOp (CHR ''*'')) s else s)
         in tokenize_loop L (drop (length buf - 1) cs) (pos + length buf) depth
              (push_tok (TokNum num) s1))
      else if IS_ALPHA c then
        (let buf = c # alpha_run 1 cs;
             s1 = (if mul_before_term (last_tok s) then push_tok (TokOp (CHR ''*'')) s else s)
         in tokenize_loop L (drop (length buf - 1) cs) (pos + length buf) depth
              (push_tok (TokIdent buf) s1))
      else if c = CHR '')'' \<and> depth = 0 then Inl UnmatchedCloseParen
      else
        (let depth' = (if c = CHR ''('' then depth + 1
                       else if c = CHR '')'' then depth - 1 else depth)
         in if is_op_char c then
              (let s1 = (if c = CHR ''('' \<and> mul_before_paren (last_tok s)
                         then push_tok (TokOp (CHR ''*'')) s else s)
               in tokenize_loop L cs (pos + 1) depth' (push_tok (TokOp c) s1))
            else Inl (UnrecognizedCharacter pos c)))"
  by pat_completeness auto
termination
  by (relation "measure (\<lambda>(L, cs, pos, depth, s). length cs)") auto

definition tokenize :: "'r libm \<Rightarrow> string \<Rightarrow> 'r state \<Rightarrow> error + 'r state" where
  "tokenize L expr s =
     (case tokenize_loop L expr 0 0 (push_tok (TokOp (CHR ''('')) s) of
        Inl e \<Rightarrow> Inl e
      | Inr (depth, s') \<Rightarrow>
          if depth > 0 then Inl UnmatchedOpenParen
          else Inr (push_tok (TokOp (CHR '')'')) s'))"

section \<open>Evaluator\<close>

text \<open>
  \<open>del_toks(begin, end)\<close> with \<open>begin = toks + b\<close> and \<open>end = toks + e\<close>: \<open>memmove\<close> copies
  the \<open>toks_size - e\<close> tokens from \<open>e\<close> on down to \<open>b\<close>, then \<open>toks_size\<close> drops by
  \<open>e - b\<close>.  The cells after the copied block keep what they held.  If \<open>e\<close> is beyond
  \<open>toks_size\<close> the unsigned length wraps around.
\<close>

definition del_toks :: "nat \<Rightarrow> nat \<Rightarrow> 'r state \<Rightarrow> error + 'r state" where
  "del_toks b e s =
     (if toks_size s < e \<or> e < b \<or> length (toks s) < toks_size s then Inl Undefined_Behaviour
      else
        (let n = toks_size s - e
         in Inr \<lparr>toks = take b (toks s) @ take n (drop e (toks s)) @ drop (b + n) (toks s),
                 toks_size = toks_size s - (e - b)\<rparr>))"

text \<open>A delimiter: \<open>t.kind == TokOp && OP_PREC(t.Char) == 0\<close>.\<close>

fun is_delim :: "'r Tok \<Rightarrow> bool" where
  "is_delim (TokOp c) = (op_prec c = 0)"
| "is_delim t = False"

text \<open>
  The scanning loops \<open>for (...; !(t[i].kind == TokOp && OP_PREC(t[i].Char) == 0); i++);\<close>,
  on the absolute index \<open>k = t + i\<close>.  The result is the index of the delimiter found.
\<close>

function scan_delim :: "'r state \<Rightarrow> nat \<Rightarrow> error + nat" where
  "scan_delim s k =
     (case tok_at s k of
        Inl e \<Rightarrow> Inl e
      | Inr t \<Rightarrow> if is_delim t then Inr k else scan_delim s (k + 1))"
  by pat_completeness auto
termination
  by (relation "measure (\<lambda>(s, k). TOKS_CAP - k)") (auto simp: tok_at_def split: if_splits)

declare scan_delim.simps [simp del]

text \<open>
  The registry searches of \<open>collapse\<close>.  Neither loop stops at a match: a later entry with
  the same name overrides an earlier one.  \<open>acc\<close> is \<open>None\<close> while \<open>func_found\<close> (or
  \<open>found\<close>) is false, and holds \<open>outer_res\<close> (or \<open>res\<close>) afterwards.
\<close>

fun call_loop :: "'r Function list \<Rightarrow> string \<Rightarrow> 'r list \<Rightarrow> 'r option \<Rightarrow> error + 'r option" where
  "call_loop [] n args acc = Inr acc"
| "call_loop (f # fs) n args acc =
     (if n = fn_name f then
        (if length args \<noteq> fn_n_args f then Inl (ArityMismatch (fn_name f) (fn_n_args f) (length args))
         else call_loop fs n args (Some (fn_func f args)))
      else call_loop fs n args acc)"

fun var_loop :: "'r Var list \<Rightarrow> string \<Rightarrow> 'r option \<Rightarrow> 'r option" where
  "var_loop [] n acc = acc"
| "var_loop (v # vs) n acc = var_loop vs n (if n = var_name v then Some (var_val v) else acc)"

text \<open>The read-only globals of an evaluation.\<close>

record 'r env =
  env_libm :: "'r libm"
  env_functions :: "'r Function list"
  env_vars :: "'r Var list"

text \<open>The \<open>switch (curr_op)\<close> of \<open>eval\<close>.\<close>

definition apply_op :: "'r libm \<Rightarrow> char \<Rightarrow> 'r \<Rightarrow> 'r \<Rightarrow> error + 'r" where
  "apply_op L c lhs rhs =
     (if c = CHR ''+'' then Inr (c_add L lhs rhs)
      else if c = CHR ''-'' then Inr (c_sub L lhs rhs)
      else if c = CHR ''*'' then Inr (c_mul L lhs rhs)
      else if c = CHR ''/'' then Inr (c_div L lhs rhs)
      else if c = CHR ''^'' then Inr (c_pow L lhs rhs)
      else Inl (UnhandledOperator c))"

text \<open>
  Sequencing of steps that may exit.  A result is \<open>None\<close> when the fuel ran out,
  \<open>Some (Inl e)\<close> for an exit with an error, and \<open>Some (Inr x)\<close> for a return.
\<close>

definition lift :: "error + 'a \<Rightarrow> (error + 'a) option" where
  "lift r = Some r"

definition bnd :: "(error + 'a) option \<Rightarrow> ('a \<Rightarrow> (error + 'b) option) \<Rightarrow> (error + 'b) option" where
  "bnd m f = (case m of None \<Rightarrow> None | Some (Inl e) \<Rightarrow> Some (Inl e) | Some (Inr x) \<Rightarrow> f x)"

definition fail :: "error \<Rightarrow> (error + 'a) option" where
  "fail e = Some (Inl e)"

definition ret :: "'a \<Rightarrow> (error + 'a) option" where
  "ret x = Some (Inr x)"

text \<open>
  \<open>collapse\<close> and \<open>eval\<close> are mutually recursive and contain \<open>while (1)\<close> loops, so they
  take fuel: every call and every loop iteration uses one unit.  \<open>t\<close> is the index of the
  pointer argument in \<open>toks\<close>.  \<open>collect_args\<close> is the argument loop of a function call
  (with \<open>t\<close> already moved to the opening parenthesis), \<open>eval_loop\<close> the loop of \<open>eval\<close>.
\<close>

fun collapse :: "nat \<Rightarrow> 'r env \<Rightarrow> nat \<Rightarrow> 'r state \<Rightarrow> (error + 'r state) option"
  and collect_args ::
    "nat \<Rightarrow> 'r env \<Rightarrow> nat \<Rightarrow> 'r list \<Rightarrow> 'r state \<Rightarrow> (error + 'r list \<times> 'r state) option"
  and eval :: "nat \<Rightarrow> 'r env \<Rightarrow> nat \<Rightarrow> 'r state \<Rightarrow> (error + 'r \<times> 'r state) option"
  and eval_loop :: "nat \<Rightarrow> 'r env \<Rightarrow> nat \<Rightarrow> 'r state \<Rightarrow> (error + 'r \<times> 'r state) option"
where
  "collapse 0 E t s = None"
| "collapse (Suc n) E t s =
     bnd (bnd (lift (tok_at s (t + 1))) (\<lambda>t1.
            if t1 = TokOp (CHR ''-'') then
              bnd (collapse n E (t + 1) s) (\<lambda>s'.
              bnd (lift (tok_at s' (t + 2))) (\<lambda>t2.
                case t2 of
                  TokNum x \<Rightarrow>
                    lift (del_toks (t + 1) (t + 2)
                            (put_tok (t + 2) (TokNum (c_mul (env_libm E) x (c_neg_one (env_libm E)))) s'))
                | _ \<Rightarrow> fail UncollapsibleUnaryMinus))
            else ret s)) (\<lambda>s1.
     bnd (bnd (lift (tok_at s1 (t + 1))) (\<lambda>t1.
            if t1 = TokOp (CHR ''('') then
              bnd (eval n E (t + 1) s1) (\<lambda>(res, s').
              bnd (lift (scan_delim s' (t + 2))) (\<lambda>k.
              bnd (lift (del_toks (t + 2) (k + 1) s')) (\<lambda>s''.
                ret (put_tok (t + 1) (TokNum res) s''))))
            else ret s1)) (\<lambda>s2.
     bnd (lift (tok_at s2 (t + 1))) (\<lambda>t1.
       case t1 of
         TokIdent nm \<Rightarrow>
           if t + 2 < toks_size s2 \<and> tok_at s2 (t + 2) = Inr (TokOp (CHR ''(''))
           then
             bnd (collect_args n E (t + 2) [] s2) (\<lambda>(args, s3).
             bnd (lift (tok_at s3 (t + 1))) (\<lambda>t1'.
               case t1' of
                 TokIdent nm' \<Rightarrow>
                   bnd (lift (call_loop (env_functions E) nm' args None)) (\<lambda>r.
                     case r of
                       None \<Rightarrow> fail (UnknownFunction nm')
                     | Some outer_res \<Rightarrow> ret (put_tok (t + 1) (TokNum outer_res) s3))
               | _ \<Rightarrow> fail Undefined_Behaviour))
           else
             (case var_loop (env_vars E) nm None of
                None \<Rightarrow> fail (UnknownVariable nm)
              | Some res \<Rightarrow> ret (put_tok (t + 1) (TokNum res) s2))
       | _ \<Rightarrow> ret s2)))"
| "collect_args 0 E t args s = None"
| "collect_args (Suc n) E t args s =
     bnd (if length args < 16
          then bnd (eval n E t s) (\<lambda>(v, s'). ret (args @ [v], s'))
          else ret (args, s)) (\<lambda>(args', s1).
     bnd (lift (scan_delim s1 (t + 1))) (\<lambda>k.
     bnd (lift (tok_at s1 k)) (\<lambda>tk.
       case tk of
         TokOp c \<Rightarrow>
           bnd (if c = CHR '','' then lift (del_toks t k s1)
                else if c = CHR '')'' then lift (del_toks t (k + 1) s1)
                else ret s1) (\<lambda>s2.
             if c = CHR '')'' then ret (args', s2) else collect_args n E t args' s2)
       | _ \<Rightarrow> fail Undefined_Behaviour)))"
| "eval 0 E t s = None"
| "eval (Suc n) E t s =
     bnd (lift (tok_at s t)) (\<lambda>t0.
       if is_delim t0 then eval_loop n E t s else fail ExpectedDelimiter)"
| "eval_loop 0 E t s = None"
| "eval_loop (Suc n) E t s =
     bnd (collapse n E t s) (\<lambda>s1.
     bnd (lift (tok_at s1 t)) (\<lambda>t0.
       case t0 of
         TokOp curr_op \<Rightarrow>
           bnd (lift (tok_at s1 (t + 1))) (\<lambda>t1.
             case t1 of
               TokNum rhs \<Rightarrow>
                 bnd (lift (tok_at s1 (t + 2))) (\<lambda>t2.
                   case t2 of
                     TokOp next_op \<Rightarrow>
                       (let curr_prec = op_prec curr_op; next_prec = op_prec next_op
                        in if curr_prec = 0 \<and> next_prec = 0 then ret (rhs, s1)
                           else if next_prec > curr_prec
                                   \<or> (next_prec = curr_prec \<and> op_order curr_op = OrderRtl)
                           then eval_loop n E (t + 2) s1
                           else if next_prec < curr_prec
                                   \<or> (next_prec = curr_prec \<and> op_order curr_op = OrderLtr)
                           then
                             (if t < 2 then fail Undefined_Behaviour
                              else
                                bnd (lift (tok_at s1 (t - 1))) (\<lambda>tl.
                                  case tl of
                                    TokNum lhs \<Rightarrow>
                                      bnd (lift (apply_op (env_libm E) curr_op lhs rhs)) (\<lambda>res.
                                      bnd (lift (del_toks (t - 1) (t + 1)
                                                   (put_tok (t + 1) (TokNum res) s1))) (\<lambda>s2.
                                        eval_loop n E (t - 2) s2))
                                  | _ \<Rightarrow> fail Undefined_Behaviour))
                           else eval_loop n E t s1)
                   | _ \<Rightarrow> fail InvalidTokenOrder)
             | _ \<Rightarrow> fail InvalidTokenOrder)
       | _ \<Rightarrow> fail InvalidTokenOrder))"

text \<open>The equations of the four functions are unfolded on demand only.\<close>

declare collapse.simps [simp del] collect_args.simps [simp del] eval.simps [simp del]
  eval_loop.simps [simp del]

section \<open>The program\<close>

text \<open>The built-in functions, and the registrations that \<open>main\<close> makes before tokenizing.\<close>

definition fn_sqrt :: "'r libm \<Rightarrow> 'r list \<Rightarrow> 'r" where "fn_sqrt L args = c_sqrt L (args ! 0)"
definition fn_pow :: "'r libm \<Rightarrow> 'r list \<Rightarrow> 'r" where "fn_pow L args = c_pow L (args ! 0) (args ! 1)"
definition fn_mod :: "'r libm \<Rightarrow> 'r list \<Rightarrow> 'r" where "fn_mod L args = c_fmod L (args ! 0) (args ! 1)"
definition fn_round :: "'r libm \<Rightarrow> 'r list \<Rightarrow> 'r" where "fn_round L args = c_round L (args ! 0)"
definition fn_floor :: "'r libm \<Rightarrow> 'r list \<Rightarrow> 'r" where "fn_floor L args = c_floor L (args ! 0)"
definition fn_ceil :: "'r libm \<Rightarrow> 'r list \<Rightarrow> 'r" where "fn_ceil L args = c_ceil L (args ! 0)"
definition fn_sin :: "'r libm \<Rightarrow> 'r list \<Rightarrow> 'r" where "fn_sin L args = c_sin L (args ! 0)"
definition fn_cos :: "'r libm \<Rightarrow> 'r list \<Rightarrow> 'r" where "fn_cos L args = c_cos L (args ! 0)"

definition main_functions :: "'r libm \<Rightarrow> 'r Function list" where
  "main_functions L =
     add_func ''cos'' (fn_cos L) 1
      (add_func ''sin'' (fn_sin L) 1
        (add_func ''ceil'' (fn_ceil L) 1
          (add_func ''floor'' (fn_floor L) 1
            (add_func ''round'' (fn_round L) 1
              (add_func ''mod'' (fn_mod L) 2
                (add_func ''pow'' (fn_pow L) 2
                  (add_func ''sqrt'' (fn_sqrt L) 1 [])))))))"

definition main_vars :: "'r libm \<Rightarrow> error + 'r Var list" where
  "main_vars L =
     (case set_var ''pi'' (M_PI L) (unset_var ''x'' []) of
        Inl e \<Rightarrow> Inl e
      | Inr vs \<Rightarrow> set_var ''e'' (M_E L) vs)"

text \<open>
  \<open>evaluate\<close> is the part of \<open>main\<close> after the registrations, without the printing:
  \<open>tokenize(argv[1])\<close> on the empty buffer, then \<open>eval(toks)\<close>.
\<close>

definition evaluate :: "nat \<Rightarrow> 'r env \<Rightarrow> string \<Rightarrow> (error + 'r \<times> 'r state) option" where
  "evaluate fuel E expr =
     bnd (lift (tokenize (env_libm E) expr init_state)) (\<lambda>s. eval fuel E 0 s)"

definition main_env :: "'r libm \<Rightarrow> error + 'r env" where
  "main_env L =
     (case main_vars L of
        Inl e \<Rightarrow> Inl e
      | Inr vs \<Rightarrow> Inr \<lparr>env_libm = L, env_functions = main_functions L, env_vars = vs\<rparr>)"

definition run :: "nat \<Rightarrow> 'r libm \<Rightarrow> string \<Rightarrow> (error + 'r) option" where
  "run fuel L expr =
     bnd (lift (main_env L)) (\<lambda>E.
     bnd (evaluate fuel E expr) (\<lambda>(res, s). ret res))"

subsection \<open>Exact arithmetic as an instance of the library parameter\<close>

text \<open>
  One instance of the parameter computes with exact real numbers.  On the inputs used
  below (small integers and their sums, products and powers) exact arithmetic and IEEE-754
  double arithmetic give the same values, since those values are representable.
  \<open>exact_strtod\<close> reads the longest decimal prefix \<open>digits [. digits]\<close> of the buffer and
  returns 0 when there is no digit, as \<open>strtod\<close> does on a buffer of digits and points.
\<close>

definition is_digit :: "char \<Rightarrow> bool" where
  "is_digit c = (48 \<le> (of_char c :: nat) \<and> (of_char c :: nat) \<le> 57)"

definition dec_val :: "string \<Rightarrow> nat" where
  "dec_val ds = foldl (\<lambda>a c. 10 * a + (of_char c - 48)) 0 ds"

definition exact_strtod :: "string \<Rightarrow> real" where
  "exact_strtod buf =
     (let ip = takeWhile is_digit buf;
          rest = drop (length ip) buf;
          fp = (case rest of [] \<Rightarrow> [] | c # r \<Rightarrow> if c = CHR ''.'' then takeWhile is_digit r else [])
      in if ip = [] \<and> fp = [] then 0
         else of_nat (dec_val ip) + of_nat (dec_val fp) / 10 ^ length fp)"

definition exact_pow :: "real \<Rightarrow> real \<Rightarrow> real" where
  "exact_pow x y = (if y = of_int \<lfloor>y\<rfloor> then x powi \<lfloor>y\<rfloor> else x powr y)"

definition exact_libm :: "real libm" where
  "exact_libm =
     \<lparr>c_strtod = exact_strtod, c_add = (+), c_sub = (-), c_mul = (*), c_div = (/),
      c_neg_one = - 1, c_pow = exact_pow, c_sqrt = sqrt,
      c_fmod = (\<lambda>x y. x - y * of_int (if 0 \<le> x / y then \<lfloor>x / y\<rfloor> else \<lceil>x / y\<rceil>)),
      c_round = (\<lambda>x. if 0 \<le> x then of_int \<lfloor>x + 1 / 2\<rfloor> else of_int \<lceil>x - 1 / 2\<rceil>),
      c_floor = (\<lambda>x. of_int \<lfloor>x\<rfloor>), c_ceil = (\<lambda>x. of_int \<lceil>x\<rceil>),
      c_sin = sin, c_cos = cos, M_PI = pi, M_E = exp 1\<rparr>"

section \<open>Running the model on concrete inputs\<close>

text \<open>
  Rules for evaluating the model with the simplifier.  The congruence rules keep the
  simplifier out of a continuation until its argument is a value.
\<close>

lemma bnd_simps:
  "bnd None f = None"
  "bnd (Some (Inl e)) f = Some (Inl e)"
  "bnd (Some (Inr x)) f = f x"
  by (simp_all add: bnd_def)

lemma bnd_weak_cong: "m = m' \<Longrightarrow> bnd m f = bnd m' f"
  by simp

lemmas fuel_numeral =
  collapse.simps(2)[of "pred_numeral k" for k, folded numeral_eq_Suc]
  collect_args.simps(2)[of "pred_numeral k" for k, folded numeral_eq_Suc]
  eval.simps(2)[of "pred_numeral k" for k, folded numeral_eq_Suc]
  eval_loop.simps(2)[of "pred_numeral k" for k, folded numeral_eq_Suc]

lemma list_update_numeral: "(x # xs)[numeral k := y] = x # xs[pred_numeral k := y]"
  by (simp add: numeral_eq_Suc)

lemmas tokenize_defs =
  tokenize_def init_state_def push_tok_def put_tok_def TOKS_CAP_def last_tok_def tok_at_def
  IS_FLOAT_def IS_ALPHA_def is_op_char_def

lemmas registry_defs =
  main_env_def main_vars_def main_functions_def add_func_def set_var_def FUNCTIONS_CAP_def
  VARS_CAP_def

lemmas eval_defs =
  put_tok_def TOKS_CAP_def tok_at_def del_toks_def op_prec_def op_order_def apply_op_def
  lift_def fail_def ret_def bnd_simps scan_delim.simps fuel_numeral list_update_numeral Let_def
  fn_sqrt_def fn_pow_def collapse.simps collect_args.simps eval.simps eval_loop.simps

lemmas run_defs = run_def evaluate_def registry_defs tokenize_defs eval_defs

lemmas run_congs = bnd_weak_cong prod.case_cong_weak let_weak_cong

lemma exact_strtod_values:
  "exact_strtod ''1'' = 1" "exact_strtod ''2'' = 2" "exact_strtod ''3'' = 3"
  "exact_strtod ''4'' = 4" "exact_strtod ''10'' = 10" "exact_strtod ''16'' = 16"
  by (simp_all add: exact_strtod_def is_digit_def dec_val_def)

lemma exact_sqrt_values: "sqrt 16 = 4" "sqrt 4 = 2"
proof -
  have "sqrt ((4::real)\<^sup>2) = 4" by simp
  then show "sqrt 16 = 4" by simp
  have "sqrt ((2::real)\<^sup>2) = 2" by simp
  then show "sqrt 4 = 2" by simp
qed

lemmas exact_defs = exact_libm_def exact_pow_def exact_strtod_values exact_sqrt_values

section \<open>Precedence and associativity\<close>

text \<open>The value of a binary operator of the \<open>switch\<close>, for stating results.\<close>

definition op_val :: "'r libm \<Rightarrow> char \<Rightarrow> 'r \<Rightarrow> 'r \<Rightarrow> 'r" where
  "op_val L c lhs rhs = (case apply_op L c lhs rhs of Inr r \<Rightarrow> r | Inl e \<Rightarrow> rhs)"

lemma run_prec_generic:
  "run 50 L ''2+3*4'' =
     Some (Inr (c_add L (c_strtod L ''2'') (c_mul L (c_strtod L ''3'') (c_strtod L ''4''))))"
  "run 50 L ''(2+3)*4'' =
     Some (Inr (c_mul L (c_add L (c_strtod L ''2'') (c_strtod L ''3'')) (c_strtod L ''4'')))"
  "run 50 L ''2^3^2'' =
     Some (Inr (c_pow L (c_strtod L ''2'') (c_pow L (c_strtod L ''3'') (c_strtod L ''2''))))"
  by (simp_all add: run_defs cong: run_congs)

lemma run_prec_exact:
  "run 50 exact_libm ''2+3*4'' = Some (Inr 14)"
  "run 50 exact_libm ''(2+3)*4'' = Some (Inr 20)"
  "run 50 exact_libm ''2^3^2'' = Some (Inr 512)"
  "run 50 exact_libm ''2^3^2'' \<noteq> Some (Inr 64)"
  by (simp_all add: run_prec_generic exact_defs)

lemma three_operands:
  assumes "o1 \<in> set ''+-*/^''" "o2 \<in> set ''+-*/^''"
  shows "bnd (eval 20 E 0
                \<lparr>toks = [TokOp (CHR ''(''), TokNum a, TokOp o1, TokNum b, TokOp o2, TokNum c,
                         TokOp (CHR '')'')], toks_size = 7\<rparr>) (\<lambda>(res, s'). ret res) =
         Some (Inr (if op_prec o2 > op_prec o1 \<or> (op_prec o2 = op_prec o1 \<and> op_order o1 = OrderRtl)
                    then op_val (env_libm E) o1 a (op_val (env_libm E) o2 b c)
                    else op_val (env_libm E) o2 (op_val (env_libm E) o1 a b) c))"
  using assms
  apply simp
  apply (elim disjE)
  apply (simp_all add: eval_defs op_val_def cong: run_congs)
  done

lemma prec_table:
  "op_prec (CHR ''+'') = 1 \<and> op_prec (CHR ''-'') = 1 \<and> op_prec (CHR ''*'') = 2
   \<and> op_prec (CHR ''/'') = 2 \<and> op_prec (CHR ''^'') = 3 \<and> op_prec (CHR ''('') = 0
   \<and> op_prec (CHR '')'') = 0 \<and> op_prec (CHR '','') = 0"
  by (simp add: op_prec_def)

lemma order_table:
  "op_order (CHR ''^'') = OrderRtl \<and> op_order (CHR ''+'') = OrderLtr
   \<and> op_order (CHR ''-'') = OrderLtr \<and> op_order (CHR ''*'') = OrderLtr
   \<and> op_order (CHR ''/'') = OrderLtr"
  by (simp add: op_order_def)

text \<open>
  Claim C1.  The precedence table gives \<open>+\<close> and \<open>-\<close> precedence 1, \<open>*\<close> and \<open>/\<close> 2,
  \<open>^\<close> 3 and the delimiters 0; \<open>^\<close> is right-associative and the others are
  left-associative.  For any two binary operators between three numbers, \<open>eval\<close> applies
  the second operator first exactly when it has the higher precedence, or the same
  precedence and the first one is right-associative.  For every arithmetic, \<open>2+3*4\<close> is
  evaluated as \<open>2+(3*4)\<close>, \<open>(2+3)*4\<close> as written and \<open>2^3^2\<close> as \<open>2^(3^2)\<close>; in exact
  arithmetic the results are 14, 20 and 512 (not 64).
\<close>

theorem precedence_folding:
  "(op_prec (CHR ''+'') = 1 \<and> op_prec (CHR ''-'') = 1 \<and> op_prec (CHR ''*'') = 2
    \<and> op_prec (CHR ''/'') = 2 \<and> op_prec (CHR ''^'') = 3 \<and> op_prec (CHR ''('') = 0
    \<and> op_prec (CHR '')'') = 0 \<and> op_prec (CHR '','') = 0)
   \<and> (op_order (CHR ''^'') = OrderRtl \<and> op_order (CHR ''+'') = OrderLtr
    \<and> op_order (CHR ''-'') = OrderLtr \<and> op_order (CHR ''*'') = OrderLtr
    \<and> op_order (CHR ''/'') = OrderLtr)
   \<and> (\<forall>o1 \<in> set ''+-*/^''. \<forall>o2 \<in> set ''+-*/^''.
        bnd (eval 20 E 0
               \<lparr>toks = [TokOp (CHR ''(''), TokNum a, TokOp o1, TokNum b, TokOp o2, TokNum c,
                        TokOp (CHR '')'')], toks_size = 7\<rparr>) (\<lambda>(res, s'). ret res) =
        Some (Inr (if op_prec o2 > op_prec o1 \<or> (op_prec o2 = op_prec o1 \<and> op_order o1 = OrderRtl)
                   then op_val (env_libm E) o1 a (op_val (env_libm E) o2 b c)
                   else op_val (env_libm E) o2 (op_val (env_libm E) o1 a b) c)))
   \<and> run 50 L ''2+3*4'' =
       Some (Inr (c_add L (c_strtod L ''2'') (c_mul L (c_strtod L ''3'') (c_strtod L ''4''))))
   \<and> run 50 L ''(2+3)*4'' =
       Some (Inr (c_mul L (c_add L (c_strtod L ''2'') (c_strtod L ''3'')) (c_strtod L ''4'')))
   \<and> run 50 L ''2^3^2'' =
       Some (Inr (c_pow L (c_strtod L ''2'') (c_pow L (c_strtod L ''3'') (c_strtod L ''2''))))
   \<and> run 50 exact_libm ''2+3*4'' = Some (Inr 14)
   \<and> run 50 exact_libm ''(2+3)*4'' = Some (Inr 20)
   \<and> run 50 exact_libm ''2^3^2'' = Some (Inr 512)
   \<and> run 50 exact_libm ''2^3^2'' \<noteq> Some (Inr 64)"
  using prec_table order_table three_operands[of _ _ E a b c] run_prec_generic[of L] run_prec_exact
  by blast

theorem precedence_folding_witness:
  "CHR ''+'' \<in> set ''+-*/^'' \<and> CHR ''*'' \<in> set ''+-*/^''
   \<and> bnd (eval 20 \<lparr>env_libm = exact_libm, env_functions = [], env_vars = []\<rparr> 0
            \<lparr>toks = [TokOp (CHR ''(''), TokNum 2, TokOp (CHR ''+''), TokNum 3, TokOp (CHR ''*''),
                     TokNum 4, TokOp (CHR '')'')], toks_size = 7\<rparr>) (\<lambda>(res, s'). ret res) =
      Some (Inr 14)"
proof -
  have m: "CHR ''+'' \<in> set ''+-*/^''" "CHR ''*'' \<in> set ''+-*/^''" by simp_all
  from precedence_folding[of "\<lparr>env_libm = exact_libm, env_functions = [], env_vars = []\<rparr>" 2 3 4 exact_libm]
  have "\<forall>o1 \<in> set ''+-*/^''. \<forall>o2 \<in> set ''+-*/^''.
        bnd (eval 20 \<lparr>env_libm = exact_libm, env_functions = [], env_vars = []\<rparr> 0
               \<lparr>toks = [TokOp (CHR ''(''), TokNum 2, TokOp o1, TokNum 3, TokOp o2, TokNum 4,
                        TokOp (CHR '')'')], toks_size = 7\<rparr>) (\<lambda>(res, s'). ret res) =
        Some (Inr (if op_prec o2 > op_prec o1 \<or> (op_prec o2 = op_prec o1 \<and> op_order o1 = OrderRtl)
                   then op_val exact_libm o1 2 (op_val exact_libm o2 3 4)
                   else op_val exact_libm o2 (op_val exact_libm o1 2 3) 4))"
    by simp
  from this[rule_format, OF m] show ?thesis
    by (simp add: op_prec_def op_val_def apply_op_def exact_libm_def)
qed

section \<open>The live part of the buffer\<close>

text \<open>
  \<open>live s\<close> is the token sequence proper, the first \<open>toks_size\<close> cells.  \<open>ok s\<close> says that
  the size counter is within the written prefix and the prefix within the array.
\<close>


definition live :: "'r state \<Rightarrow> 'r Tok list" where
  "live s = take (toks_size s) (toks s)"

definition ok :: "'r state \<Rightarrow> bool" where
  "ok s = (toks_size s \<le> length (toks s) \<and> length (toks s) \<le> TOKS_CAP)"

lemma length_live: "ok s \<Longrightarrow> length (live s) = toks_size s"
  by (simp add: live_def ok_def)

lemma tok_at_live: "ok s \<Longrightarrow> i < toks_size s \<Longrightarrow> tok_at s i = Inr (live s ! i)"
  by (simp add: tok_at_def live_def ok_def)

lemma tok_at_app:
  "ok s \<Longrightarrow> live s = A @ x # B \<Longrightarrow> i = length A \<Longrightarrow> tok_at s i = Inr x"
  using tok_at_live[of s i] length_live[of s] by simp

lemma put_tok_live:
  assumes "ok s" "live s = A @ x # B" "i = length A"
  shows "live (put_tok i t s) = A @ t # B" "ok (put_tok i t s)"
        "toks_size (put_tok i t s) = toks_size s"
proof -
  from assms have i: "i < toks_size s" using length_live[of s] by simp
  with assms(1) have il: "i < length (toks s)" by (simp add: ok_def)
  from il show "toks_size (put_tok i t s) = toks_size s" by (simp add: put_tok_def)
  from il assms(1) show "ok (put_tok i t s)" by (simp add: put_tok_def ok_def)
  have "live (put_tok i t s) = (live s)[i := t]"
    using il by (simp add: put_tok_def live_def take_update_swap)
  then show "live (put_tok i t s) = A @ t # B" using assms by simp
qed

lemma del_toks_live:
  assumes "ok s" "live s = A @ D @ B" "b = length A" "e = length A + length D"
  shows "\<exists>s'. del_toks b e s = Inr s' \<and> live s' = A @ B \<and> ok s'"
proof -
  from assms have sz: "toks_size s = length A + length D + length B"
    using length_live[of s] by simp
  let ?n = "toks_size s - e"
  let ?s' = "\<lparr>toks = take b (toks s) @ take ?n (drop e (toks s)) @ drop (b + ?n) (toks s),
                 toks_size = toks_size s - (e - b)\<rparr>"
  from assms sz have d: "del_toks b e s = Inr ?s'"
    by (simp add: del_toks_def ok_def Let_def)
  from assms(1) have len: "toks_size s \<le> length (toks s)" "length (toks s) \<le> TOKS_CAP"
    by (simp_all add: ok_def)
  have tk: "take (toks_size s) (toks s) = A @ D @ B" using assms(2) by (simp add: live_def)
  have t1: "take b (toks s) = A"
    using tk assms(3) sz by (metis append_eq_conv_conj append_take_drop_id length_take min.absorb2 take_take len(1) le_add1 add.assoc)
  have t2: "take ?n (drop e (toks s)) = B"
  proof -
    have "drop e (take (toks_size s) (toks s)) = B" using tk assms by simp
    then show ?thesis using sz assms by (simp add: drop_take)
  qed
  have "live ?s' = A @ B"
    using t1 t2 sz assms len by (simp add: live_def)
  moreover have "ok ?s'" using len sz assms by (simp add: ok_def)
  ultimately show ?thesis using d by blast
qed

lemma scan_delim_skip:
  assumes "ok s" "live s = A @ x # B" "k = length A" "\<not> is_delim x"
  shows "scan_delim s k = scan_delim s (Suc k)"
  using tok_at_app[OF assms(1,2,3)] assms(4) by (subst scan_delim.simps) simp

lemma scan_delim_hit:
  assumes "ok s" "live s = A @ x # B" "k = length A" "is_delim x"
  shows "scan_delim s k = Inr k"
  using tok_at_app[OF assms(1,2,3)] assms(4) by (subst scan_delim.simps) simp

section \<open>More fuel never changes a result\<close>

definition le_res :: "'a option \<Rightarrow> 'a option \<Rightarrow> bool" where
  "le_res a b = (a = None \<or> a = b)"

lemma le_res_refl: "le_res a a" by (simp add: le_res_def)

lemma le_res_None: "le_res None a" by (simp add: le_res_def)

lemma le_res_bnd: "le_res a a' \<Longrightarrow> (\<And>x. le_res (f x) (f' x)) \<Longrightarrow> le_res (bnd a f) (bnd a' f')"
  by (auto simp: le_res_def bnd_def split: option.splits sum.splits)

lemma le_res_if: "le_res a a' \<Longrightarrow> le_res b b' \<Longrightarrow> le_res (if c then a else b) (if c then a' else b')"
  by simp

lemma le_res_case_prod: "(\<And>x y. le_res (f x y) (f' x y)) \<Longrightarrow> le_res (case_prod f p) (case_prod f' p)"
  by (cases p) simp

lemma le_res_case_Tok:
  "le_res a a' \<Longrightarrow> (\<And>c. le_res (b c) (b' c)) \<Longrightarrow> (\<And>x. le_res (c x) (c' x)) \<Longrightarrow> (\<And>n. le_res (d n) (d' n))
   \<Longrightarrow> le_res (case_Tok a b c d t) (case_Tok a' b' c' d' t)"
  by (cases t) simp_all

lemma le_res_case_option:
  "le_res a a' \<Longrightarrow> (\<And>x. le_res (b x) (b' x)) \<Longrightarrow> le_res (case_option a b t) (case_option a' b' t)"
  by (cases t) simp_all

lemma le_res_Let: "(\<And>x. le_res (f x) (f' x)) \<Longrightarrow> le_res (Let a f) (Let a f')"
  by simp

lemmas le_res_intros = le_res_bnd le_res_if le_res_case_prod le_res_case_Tok le_res_case_option le_res_Let

lemma fuel_step:
  "le_res (collapse n E t s) (collapse (Suc n) E t s)"
  "le_res (collect_args n E t args s) (collect_args (Suc n) E t args s)"
  "le_res (eval n E t s) (eval (Suc n) E t s)"
  "le_res (eval_loop n E t s) (eval_loop (Suc n) E t s)"
proof (induction n arbitrary: t s args)
  case 0
  { case 1 show ?case by (simp add: le_res_None collapse.simps) }
  { case 2 show ?case by (simp add: le_res_None collect_args.simps) }
  { case 3 show ?case by (simp add: le_res_None eval.simps) }
  { case 4 show ?case by (simp add: le_res_None eval_loop.simps) }
next
  case (Suc n)
  note IH = Suc.IH
  { case 1 show ?case
      apply (subst collapse.simps(2)) apply (subst collapse.simps(2))
      by (intro le_res_intros le_res_refl IH) }
  { case 2 show ?case
      apply (subst collect_args.simps(2)) apply (subst collect_args.simps(2))
      by (intro le_res_intros le_res_refl IH) }
  { case 3 show ?case
      apply (subst eval.simps(2)) apply (subst eval.simps(2))
      by (intro le_res_intros le_res_refl IH) }
  { case 4 show ?case
      apply (subst eval_loop.simps(2)) apply (subst eval_loop.simps(2))
      by (intro le_res_intros le_res_refl IH) }
qed

lemma fuel_mono_aux:
  "le_res (collapse n E t s) (collapse (n + k) E t s)"
  "le_res (collect_args n E t args s) (collect_args (n + k) E t args s)"
  "le_res (eval n E t s) (eval (n + k) E t s)"
  "le_res (eval_loop n E t s) (eval_loop (n + k) E t s)"
proof (induction k)
  case 0
  { case 1 show ?case by (simp add: le_res_refl) }
  { case 2 show ?case by (simp add: le_res_refl) }
  { case 3 show ?case by (simp add: le_res_refl) }
  { case 4 show ?case by (simp add: le_res_refl) }
next
  case (Suc k)
  { case 1 show ?case using Suc.IH(1) fuel_step(1)[of "n + k" E t s] by (auto simp: le_res_def) }
  { case 2 show ?case using Suc.IH(2) fuel_step(2)[of "n + k" E t args s] by (auto simp: le_res_def) }
  { case 3 show ?case using Suc.IH(3) fuel_step(3)[of "n + k" E t s] by (auto simp: le_res_def) }
  { case 4 show ?case using Suc.IH(4) fuel_step(4)[of "n + k" E t s] by (auto simp: le_res_def) }
qed

lemma fuel_mono:
  "collapse n E t s = Some r \<Longrightarrow> n \<le> m \<Longrightarrow> collapse m E t s = Some r"
  "collect_args n E t args s = Some r' \<Longrightarrow> n \<le> m \<Longrightarrow> collect_args m E t args s = Some r'"
  "eval n E t s = Some r'' \<Longrightarrow> n \<le> m \<Longrightarrow> eval m E t s = Some r''"
  "eval_loop n E t s = Some r'' \<Longrightarrow> n \<le> m \<Longrightarrow> eval_loop m E t s = Some r''"
  using fuel_mono_aux(1)[of n E t s "m - n"] fuel_mono_aux(2)[of n E t args s "m - n"]
        fuel_mono_aux(3)[of n E t s "m - n"] fuel_mono_aux(4)[of n E t s "m - n"]
  by (auto simp: le_res_def)

section \<open>One step of \<open>collapse\<close>, \<open>eval\<close> and the argument loop\<close>

lemma tok_at_put_same: "i < TOKS_CAP \<Longrightarrow> tok_at (put_tok i x s) i = Inr x"
  by (simp add: tok_at_def put_tok_def nth_append)

lemma tok_at_bound: "tok_at s i = Inr x \<Longrightarrow> i < TOKS_CAP"
  by (simp add: tok_at_def split: if_splits)

lemma collapse_num:
  assumes "tok_at s (t + 1) = Inr (TokNum x)"
  shows "collapse (Suc n) E t s = Some (Inr s)"
  using assms by (simp add: collapse.simps bnd_simps lift_def ret_def)

lemma collapse_var:
  assumes "tok_at s (t + 1) = Inr (TokIdent nm)"
    and "\<not> (t + 2 < toks_size s \<and> tok_at s (t + 2) = Inr (TokOp (CHR ''('')))"
  shows "collapse (Suc n) E t s =
         (case var_loop (env_vars E) nm None of
            None \<Rightarrow> Some (Inl (UnknownVariable nm))
          | Some v \<Rightarrow> Some (Inr (put_tok (t + 1) (TokNum v) s)))"
proof -
  have c: "(Suc (Suc t) < toks_size s \<and> tok_at s (Suc (Suc t)) = Inr (TokOp (CHR ''(''))) = False"
    using assms(2) by simp
  show ?thesis using assms(1)
    by (simp add: collapse.simps c bnd_simps lift_def ret_def fail_def split: option.splits)
qed

lemma collapse_minus:
  assumes "tok_at s (t + 1) = Inr (TokOp (CHR ''-''))"
    and "collapse n E (t + 1) s = Some (Inr s')"
    and "tok_at s' (t + 2) = Inr (TokNum x)"
    and "del_toks (t + 1) (t + 2) (put_tok (t + 2) (TokNum (c_mul (env_libm E) x (c_neg_one (env_libm E)))) s') = Inr s''"
    and "tok_at s'' (t + 1) = Inr (TokNum y)"
  shows "collapse (Suc n) E t s = Some (Inr s'')"
  using assms by (simp add: collapse.simps bnd_simps lift_def ret_def)

lemma collapse_paren:
  assumes "tok_at s (t + 1) = Inr (TokOp (CHR ''(''))"
    and "eval n E (t + 1) s = Some (Inr (v, s'))"
    and "scan_delim s' (t + 2) = Inr k"
    and "del_toks (t + 2) (k + 1) s' = Inr s''"
  shows "collapse (Suc n) E t s = Some (Inr (put_tok (t + 1) (TokNum v) s''))"
proof -
  have b: "t + 1 < TOKS_CAP" using assms(1) by (rule tok_at_bound)
  have c: "tok_at (put_tok (Suc t) (TokNum v) s'') (Suc t) = Inr (TokNum v)"
    using tok_at_put_same[OF b] by simp
  show ?thesis using assms
    by (simp add: collapse.simps c bnd_simps lift_def ret_def)
qed

lemma collapse_call:
  assumes "tok_at s (t + 1) = Inr (TokIdent nm)"
    and "t + 2 < toks_size s" "tok_at s (t + 2) = Inr (TokOp (CHR ''(''))"
    and "collect_args n E (t + 2) [] s = Some (Inr (args, s3))"
    and "tok_at s3 (t + 1) = Inr (TokIdent nm')"
  shows "collapse (Suc n) E t s =
         (case call_loop (env_functions E) nm' args None of
            Inl e \<Rightarrow> Some (Inl e)
          | Inr None \<Rightarrow> Some (Inl (UnknownFunction nm'))
          | Inr (Some r) \<Rightarrow> Some (Inr (put_tok (t + 1) (TokNum r) s3)))"
  using assms by (simp add: collapse.simps bnd_simps lift_def ret_def fail_def split: option.splits sum.splits)


fun follower :: "'r Tok \<Rightarrow> bool" where
  "follower (TokOp c) = (c \<in> set ''+-*/^),'')"
| "follower t = False"

definition binop :: "char \<Rightarrow> bool" where
  "binop c = (c \<in> set ''+-*/^'')"

definition closer :: "'r Tok \<Rightarrow> bool" where
  "closer t = (t = TokOp (CHR '')'') \<or> t = TokOp (CHR '',''))"

section \<open>The value of an operator sequence\<close>

text \<open>
  The reference the evaluator is compared with.  \<open>binop_val\<close> is the arithmetic a binary
  operator stands for.  \<open>fold_seq\<close> folds a sequence of operands and operators by precedence
  and associativity on plain lists: \<open>st\<close> holds the operands stepped over, each with the
  operator after it, the nearest one first; \<open>x\<close> is the operand under the cursor; \<open>ps\<close> are
  the operators to come, each with the operand after it.  The cursor moves on where the
  operator to come binds tighter than the one before the cursor, or as tight while that one
  groups from the right; otherwise the operator before the cursor is applied to the operands
  around it.
\<close>

definition binop_val :: "'r libm \<Rightarrow> char \<Rightarrow> 'r \<Rightarrow> 'r \<Rightarrow> 'r" where
  "binop_val L c a b =
     (if c = CHR ''+'' then c_add L a b
      else if c = CHR ''-'' then c_sub L a b
      else if c = CHR ''*'' then c_mul L a b
      else if c = CHR ''/'' then c_div L a b
      else c_pow L a b)"

definition climb :: "char \<Rightarrow> char \<Rightarrow> bool" where
  "climb cur nxt = (op_prec nxt > op_prec cur \<or> (op_prec nxt = op_prec cur \<and> op_order cur = OrderRtl))"

fun fold_seq :: "'r libm \<Rightarrow> ('r \<times> char) list \<Rightarrow> 'r \<Rightarrow> (char \<times> 'r) list \<Rightarrow> 'r" where
  "fold_seq L [] x [] = x"
| "fold_seq L ((y, c) # st) x [] = fold_seq L st (binop_val L c y x) []"
| "fold_seq L [] x ((c', x') # ps) = fold_seq L [(x, c')] x' ps"
| "fold_seq L ((y, c) # st) x ((c', x') # ps) =
     (if climb c c' then fold_seq L ((x, c') # (y, c) # st) x' ps
      else fold_seq L st (binop_val L c y x) ((c', x') # ps))"

text \<open>On three operands \<open>fold_seq\<close> groups as the tables of the operators say.\<close>

lemma fold_seq_examples:
  "fold_seq L [] a [(CHR ''+'', b), (CHR ''*'', c)] = c_add L a (c_mul L b c)"
  "fold_seq L [] a [(CHR ''*'', b), (CHR ''+'', c)] = c_add L (c_mul L a b) c"
  "fold_seq L [] a [(CHR ''-'', b), (CHR ''-'', c)] = c_sub L (c_sub L a b) c"
  "fold_seq L [] a [(CHR ''/'', b), (CHR ''*'', c)] = c_mul L (c_div L a b) c"
  "fold_seq L [] a [(CHR ''^'', b), (CHR ''^'', c)] = c_pow L a (c_pow L b c)"
  by (simp_all add: climb_def op_prec_def op_order_def binop_val_def)

text \<open>
  \<open>CP E T x\<close>: wherever the tokens \<open>T\<close> stand in the buffer, before an operator, a comma or
  a closing parenthesis, \<open>collapse\<close> replaces them by the number \<open>x\<close> and touches nothing
  else.  \<open>EP E es v\<close>: wherever the tokens \<open>es\<close> stand between two delimiters, \<open>eval\<close>
  returns \<open>v\<close> and leaves \<open>v\<close> alone between the delimiters.
\<close>

definition CP :: "'r env \<Rightarrow> 'r Tok list \<Rightarrow> 'r \<Rightarrow> bool" where
  "CP E T x = (\<forall>s t A f B. ok s \<longrightarrow> live s = A @ T @ f # B \<longrightarrow> length A = t + 1 \<longrightarrow> follower f \<longrightarrow>
     (\<exists>n s'. collapse n E t s = Some (Inr s') \<and> live s' = A @ TokNum x # f # B \<and> ok s'))"

definition EP :: "'r env \<Rightarrow> 'r Tok list \<Rightarrow> 'r \<Rightarrow> bool" where
  "EP E es v = (\<forall>s t A d d' B. ok s \<longrightarrow> live s = A @ d # es @ d' # B \<longrightarrow> length A = t \<longrightarrow>
     is_delim d \<longrightarrow> closer d' \<longrightarrow>
     (\<exists>n s'. eval n E t s = Some (Inr (v, s')) \<and> live s' = A @ d # TokNum v # d' # B \<and> ok s'))"

definition flat_stack :: "('r \<times> char) list \<Rightarrow> 'r Tok list" where
  "flat_stack st = concat (map (\<lambda>(x, c). [TokNum x, TokOp c]) st)"

definition flat_rest :: "(char \<times> 'r Tok list \<times> 'r) list \<Rightarrow> 'r Tok list" where
  "flat_rest ps = concat (map (\<lambda>(c, T, x). TokOp c # T) ps)"

definition vals :: "(char \<times> 'r Tok list \<times> 'r) list \<Rightarrow> (char \<times> 'r) list" where
  "vals ps = map (\<lambda>(c, T, x). (c, x)) ps"

lemma length_flat_stack: "length (flat_stack st) = 2 * length st"
  by (induction st) (auto simp: flat_stack_def)

lemma flat_stack_snoc: "flat_stack (st @ [(x, c)]) = flat_stack st @ [TokNum x, TokOp c]"
  by (simp add: flat_stack_def)

lemma binop_prec: "binop c \<Longrightarrow> 0 < op_prec c"
  by (auto simp: binop_def op_prec_def)

lemma binop_apply: "binop c \<Longrightarrow> apply_op L c a b = Inr (binop_val L c a b)"
  by (auto simp: binop_def apply_op_def binop_val_def)

lemma binop_follower: "binop c \<Longrightarrow> follower (TokOp c)"
  by (auto simp: binop_def)

lemma closer_follower: "closer d \<Longrightarrow> follower d"
  by (auto simp: closer_def)

lemma closer_prec: "closer d \<Longrightarrow> \<exists>c. d = TokOp c \<and> op_prec c = 0"
  unfolding closer_def
proof (erule disjE)
  assume "d = TokOp (CHR '')'')"
  then have "d = TokOp (CHR '')'') \<and> op_prec (CHR '')'') = 0" by (simp add: op_prec_def)
  then show ?thesis by blast
next
  assume "d = TokOp (CHR '','')"
  then have "d = TokOp (CHR '','') \<and> op_prec (CHR '','') = 0" by (simp add: op_prec_def)
  then show ?thesis by blast
qed

lemma is_delim_prec: "is_delim d \<Longrightarrow> \<exists>c. d = TokOp c \<and> op_prec c = 0"
  by (cases d) simp_all

lemma CP_num: "CP E [TokNum x] x"
  unfolding CP_def
proof (intro allI impI)
  fix s t A f B
  assume a: "ok s" "live s = A @ [TokNum x] @ f # B" "length A = t + 1" "follower f"
  have "tok_at s (t + 1) = Inr (TokNum x)"
    using tok_at_app[of s A "TokNum x" "f # B" "t + 1"] a by simp
  then have "collapse (Suc 0) E t s = Some (Inr s)" by (rule collapse_num)
  then show "\<exists>n s'. collapse n E t s = Some (Inr s') \<and> live s' = A @ TokNum x # f # B \<and> ok s'"
    using a by auto
qed

lemma eval_loop_ret:
  assumes "collapse n E t s = Some (Inr s1)"
    and "tok_at s1 t = Inr (TokOp cur)" "tok_at s1 (t + 1) = Inr (TokNum rhs)"
    and "tok_at s1 (t + 2) = Inr (TokOp nxt)"
    and "op_prec cur = 0" "op_prec nxt = 0"
  shows "eval_loop (Suc n) E t s = Some (Inr (rhs, s1))"
  apply (subst eval_loop.simps(2))
  apply (simp only: assms(1) bnd_simps lift_def assms(2) Tok.case assms(3) assms(4) Let_def)
  using assms(5,6)
  apply (simp add: ret_def)
  done

lemma eval_loop_adv:
  assumes "collapse n E t s = Some (Inr s1)"
    and "tok_at s1 t = Inr (TokOp cur)" "tok_at s1 (t + 1) = Inr (TokNum rhs)"
    and "tok_at s1 (t + 2) = Inr (TokOp nxt)"
    and "\<not> (op_prec cur = 0 \<and> op_prec nxt = 0)" "climb cur nxt"
  shows "eval_loop (Suc n) E t s = eval_loop n E (t + 2) s1"
  apply (subst eval_loop.simps(2))
  apply (simp only: assms(1) bnd_simps lift_def assms(2) Tok.case assms(3) assms(4) Let_def)
  using assms(5,6) unfolding climb_def
  apply auto
  done

lemma eval_loop_fold:
  assumes "collapse n E t s = Some (Inr s1)"
    and "tok_at s1 t = Inr (TokOp cur)" "tok_at s1 (t + 1) = Inr (TokNum rhs)"
    and "tok_at s1 (t + 2) = Inr (TokOp nxt)"
    and "\<not> (op_prec cur = 0 \<and> op_prec nxt = 0)" "\<not> climb cur nxt"
    and "2 \<le> t" "tok_at s1 (t - 1) = Inr (TokNum lhs)"
    and "apply_op (env_libm E) cur lhs rhs = Inr res"
    and "del_toks (t - 1) (t + 1) (put_tok (t + 1) (TokNum res) s1) = Inr s2"
  shows "eval_loop (Suc n) E t s = eval_loop n E (t - 2) s2"
proof -
  have o: "op_order cur = OrderLtr \<or> op_order cur = OrderRtl" by (cases "op_order cur") auto
  have f: "op_prec nxt < op_prec cur \<or> (op_prec nxt = op_prec cur \<and> op_order cur = OrderLtr)"
    using assms(6) o unfolding climb_def by auto
  have nc: "\<not> (op_prec cur < op_prec nxt \<or> (op_prec nxt = op_prec cur \<and> op_order cur = OrderRtl))"
    using assms(6) unfolding climb_def by auto
  have t2: "\<not> t < 2" using assms(7) by simp
  show ?thesis
    apply (subst eval_loop.simps(2))
    apply (simp only: assms(1) bnd_simps lift_def assms(2) Tok.case assms(3) assms(4) Let_def)
    using assms(5) nc f t2 assms(8,9,10)
    apply (auto simp add: bnd_simps)
    done
qed

section \<open>Evaluation of well-formed token sequences\<close>

text \<open>
  An invocation of the loop of \<open>eval\<close> sees, after its opening delimiter, a stack of numbers
  and operators it has stepped over, one term under the cursor and the terms still to come.
  If every term collapses to its value, the loop returns the value that \<open>fold_seq\<close> gives
  to the sequence, and leaves that number alone between the two delimiters.
\<close>

lemma flat_rest_Cons: "flat_rest ((c, T, x) # ps) = TokOp c # T @ flat_rest ps"
  by (simp add: flat_rest_def)

lemma flat_rest_Nil: "flat_rest [] = []"
  by (simp add: flat_rest_def)

lemma flat_stack_Nil: "flat_stack [] = []"
  by (simp add: flat_stack_def)

lemma vals_simps: "vals [] = []" "vals ((c, T, x) # ps) = (c, x) # vals ps"
  by (simp_all add: vals_def)

lemma eval_loop_wf:
  assumes "\<forall>(y, c) \<in> set st. binop c" "CP E T x" "\<forall>(c, T', x') \<in> set ps. binop c \<and> CP E T' x'"
    and "ok s" "live s = A @ d # flat_stack (rev st) @ T @ flat_rest ps @ d' # B"
    and "is_delim d" "closer d'" "t = length A + 2 * length st"
  shows "\<exists>n s'. eval_loop n E t s = Some (Inr (fold_seq (env_libm E) st x (vals ps), s'))
           \<and> live s' = A @ d # TokNum (fold_seq (env_libm E) st x (vals ps)) # d' # B \<and> ok s'"
  using assms
proof (induction "2 * length ps + length st" arbitrary: st T x ps s t rule: less_induct)
  case less
  let ?L = "env_libm E"
  let ?A' = "A @ d # flat_stack (rev st)"
  have ex: "\<exists>f B'. flat_rest ps @ d' # B = f # B' \<and> follower f"
  proof (cases ps)
    case Nil
    then show ?thesis using closer_follower[OF less.prems(7)] by (simp add: flat_rest_Nil)
  next
    case (Cons p ps')
    obtain c T' x' where p: "p = (c, T', x')" by (cases p)
    have "binop c" using less.prems(3) Cons p by simp
    then have "follower (TokOp c)" by (rule binop_follower)
    then show ?thesis using Cons p by (simp add: flat_rest_Cons)
  qed
  then obtain f B' where fB: "flat_rest ps @ d' # B = f # B'" "follower f" by blast
  have lA': "length ?A' = t + 1" using less.prems(8) by (simp add: length_flat_stack)
  have l0: "live s = ?A' @ T @ f # B'" using less.prems(5) fB(1) by simp
  from less.prems(2)[unfolded CP_def, rule_format, OF less.prems(4) l0 lA' fB(2)]
  obtain n1 s1 where c1: "collapse n1 E t s = Some (Inr s1)"
    and l1: "live s1 = ?A' @ TokNum x # f # B'" and ok1: "ok s1" by blast
  obtain nxt where nxt: "f = TokOp nxt" using fB(2) by (cases f) auto
  have r1: "tok_at s1 (t + 1) = Inr (TokNum x)"
    using tok_at_app[OF ok1 l1] lA' by simp
  have r2: "tok_at s1 (t + 2) = Inr (TokOp nxt)"
    using tok_at_app[OF ok1, of "?A' @ [TokNum x]" f B' "t + 2"] l1 lA' nxt by simp
  have cur_ex: "\<exists>cur. tok_at s1 t = Inr (TokOp cur) \<and> (st = [] \<longrightarrow> op_prec cur = 0)
                  \<and> (\<forall>y c st'. st = (y, c) # st' \<longrightarrow> cur = c \<and> binop c)"
  proof (cases st)
    case Nil
    obtain cur where cur: "d = TokOp cur" "op_prec cur = 0" using is_delim_prec[OF less.prems(6)] by blast
    have t0: "t = length A" using less.prems(8) Nil by simp
    have "tok_at s1 t = Inr (TokOp cur)"
      using tok_at_app[OF ok1, of A d "TokNum x # f # B'" t] l1 Nil cur t0 by (simp add: flat_stack_Nil)
    then show ?thesis using cur Nil by simp
  next
    case (Cons p st')
    obtain xj cj where p: "p = (xj, cj)" by (cases p)
    have bc: "binop cj" using less.prems(1) Cons p by simp
    have "live s1 = (A @ d # flat_stack (rev st') @ [TokNum xj]) @ TokOp cj # (TokNum x # f # B')"
      using l1 Cons p by (simp add: flat_stack_snoc)
    moreover have "t = length (A @ d # flat_stack (rev st') @ [TokNum xj])"
      using less.prems(8) Cons by (simp add: length_flat_stack)
    ultimately have "tok_at s1 t = Inr (TokOp cj)" using tok_at_app[OF ok1] by blast
    then show ?thesis using bc Cons p by simp
  qed
  then obtain cur where r0: "tok_at s1 t = Inr (TokOp cur)" and cur0: "st = [] \<Longrightarrow> op_prec cur = 0"
    and curc: "\<And>y c st'. st = (y, c) # st' \<Longrightarrow> cur = c \<and> binop c" by blast
  have nxt0: "op_prec nxt = 0" if "ps = []"
  proof -
    have fd: "f = d'" using fB(1) that by (simp add: flat_rest_Nil)
    obtain c0 where "d' = TokOp c0" "op_prec c0 = 0" using closer_prec[OF less.prems(7)] by blast
    then show ?thesis using fd nxt by simp
  qed
  consider (ret) "op_prec cur = 0 \<and> op_prec nxt = 0"
    | (adv) "\<not> (op_prec cur = 0 \<and> op_prec nxt = 0)" "climb cur nxt"
    | (fold) "\<not> (op_prec cur = 0 \<and> op_prec nxt = 0)" "\<not> climb cur nxt" by blast
  then show ?case
  proof cases
    case ret
    have stN: "st = []"
    proof (cases st)
      case (Cons p st')
      obtain xj cj where p: "p = (xj, cj)" by (cases p)
      have "cur = cj \<and> binop cj" using curc Cons p by simp
      then show ?thesis using ret binop_prec[of cj] by simp
    qed simp
    have psN: "ps = []"
    proof (cases ps)
      case (Cons p ps')
      obtain c T' x' where p: "p = (c, T', x')" by (cases p)
      have "binop c" using less.prems(3) Cons p by simp
      moreover have "nxt = c" using fB(1) Cons p nxt by (simp add: flat_rest_Cons)
      ultimately show ?thesis using ret binop_prec[of c] by simp
    qed simp
    have v: "fold_seq ?L st x (vals ps) = x" using stN psN by (simp add: vals_simps)
    have "eval_loop (Suc n1) E t s = Some (Inr (x, s1))"
      using eval_loop_ret[OF c1 r0 r1 r2] ret by simp
    moreover have "live s1 = A @ d # TokNum x # d' # B"
      using l1 stN psN fB(1) by (simp add: flat_stack_Nil flat_rest_Nil)
    ultimately show ?thesis using ok1 v by auto
  next
    case adv
    have "ps \<noteq> []"
    proof
      assume "ps = []"
      then have n0: "op_prec nxt = 0" by (rule nxt0)
      with adv(2) have "op_prec cur = 0" by (simp add: climb_def)
      with n0 adv(1) show False by simp
    qed
    then obtain p ps' where Cons: "ps = p # ps'" by (cases ps) auto
    obtain c T' x' where p: "p = (c, T', x')" by (cases p)
    have bc: "binop c" and cpT': "CP E T' x'" using less.prems(3) Cons p by simp_all
    have fc: "nxt = c" "B' = T' @ flat_rest ps' @ d' # B"
      using fB(1) Cons p nxt by (simp_all add: flat_rest_Cons)
    have v: "fold_seq ?L st x (vals ps) = fold_seq ?L ((x, c) # st) x' (vals ps')"
    proof (cases st)
      case Nil
      then show ?thesis using Cons p by (simp add: vals_simps)
    next
      case (Cons q st')
      obtain xj cj where q: "q = (xj, cj)" by (cases q)
      have "cur = cj" using curc Cons q by simp
      then have "climb cj c" using adv(2) fc(1) by simp
      then show ?thesis using Cons q \<open>ps = p # ps'\<close> p by (simp add: vals_simps)
    qed
    have m: "2 * length ps' + length ((x, c) # st) < 2 * length ps + length st"
      using Cons by simp
    have a1: "\<forall>(y, c) \<in> set ((x, c) # st). binop c" using less.prems(1) bc by simp
    have a3: "\<forall>(c, T', x') \<in> set ps'. binop c \<and> CP E T' x'" using less.prems(3) Cons by simp
    have a5: "live s1 = A @ d # flat_stack (rev ((x, c) # st)) @ T' @ flat_rest ps' @ d' # B"
      using l1 nxt fc by (simp add: flat_stack_snoc)
    have a8: "t + 2 = length A + 2 * length ((x, c) # st)" using less.prems(8) by simp
    from less.hyps[OF m a1 cpT' a3 ok1 a5 less.prems(6) less.prems(7) a8]
    obtain n2 s' where e2: "eval_loop n2 E (t + 2) s1 = Some (Inr (fold_seq ?L ((x, c) # st) x' (vals ps'), s'))"
      and l2: "live s' = A @ d # TokNum (fold_seq ?L ((x, c) # st) x' (vals ps')) # d' # B"
      and ok2: "ok s'" by blast
    let ?N = "max n1 n2"
    have cN: "collapse ?N E t s = Some (Inr s1)" using fuel_mono(1)[OF c1] by simp
    have "eval_loop (Suc ?N) E t s = eval_loop ?N E (t + 2) s1"
      by (rule eval_loop_adv[OF cN r0 r1 r2 adv])
    also have "\<dots> = Some (Inr (fold_seq ?L ((x, c) # st) x' (vals ps'), s'))"
      using fuel_mono(4)[OF e2] by simp
    finally show ?thesis using l2 ok2 v by auto
  next
    case fold
    have "st \<noteq> []"
    proof
      assume "st = []"
      then have c0: "op_prec cur = 0" by (rule cur0)
      with fold(1) have "0 < op_prec nxt" by simp
      with c0 fold(2) show False by (simp add: climb_def)
    qed
    then obtain p st' where snoc: "st = p # st'" by (cases st) auto
    obtain xj cj where p: "p = (xj, cj)" by (cases p)
    have cc: "cur = cj" and bcur: "binop cur" using curc snoc p by simp_all
    let ?res = "binop_val ?L cur xj x"
    have v: "fold_seq ?L st x (vals ps) = fold_seq ?L st' ?res (vals ps)"
    proof (cases ps)
      case Nil
      then show ?thesis using snoc p cc by (simp add: vals_simps)
    next
      case (Cons q ps')
      obtain c T' x' where q: "q = (c, T', x')" by (cases q)
      have "nxt = c" using fB(1) Cons q nxt by (simp add: flat_rest_Cons)
      then have "\<not> climb cj c" using fold(2) cc by simp
      then show ?thesis using Cons q snoc p cc by (simp add: vals_simps)
    qed
    have l1': "live s1 = (A @ d # flat_stack (rev st')) @ TokNum xj # (TokOp cj # TokNum x # f # B')"
      using l1 snoc p by (simp add: flat_stack_snoc)
    have t1: "t = length A + 2 * length st' + 2" using less.prems(8) snoc by simp
    have rm: "tok_at s1 (t - 1) = Inr (TokNum xj)"
      using tok_at_app[OF ok1 l1', of "t - 1"] t1 by (simp add: length_flat_stack)
    have ap: "apply_op ?L cur xj x = Inr ?res" by (rule binop_apply[OF bcur])
    have l1p: "live s1 = (A @ d # flat_stack (rev st') @ [TokNum xj, TokOp cj]) @ TokNum x # (f # B')"
      using l1' by simp
    have tp: "t + 1 = length (A @ d # flat_stack (rev st') @ [TokNum xj, TokOp cj])"
      using t1 by (simp add: length_flat_stack)
    note pt = put_tok_live[OF ok1 l1p tp, of "TokNum ?res"]
    have lp: "live (put_tok (t + 1) (TokNum ?res) s1) =
                (A @ d # flat_stack (rev st')) @ [TokNum xj, TokOp cj] @ (TokNum ?res # f # B')"
      using pt(1) by simp
    have "\<exists>s2. del_toks (t - 1) (t + 1) (put_tok (t + 1) (TokNum ?res) s1) = Inr s2
            \<and> live s2 = (A @ d # flat_stack (rev st')) @ (TokNum ?res # f # B') \<and> ok s2"
      by (rule del_toks_live[OF pt(2) lp]) (simp_all add: t1 length_flat_stack)
    then obtain s2 where d2: "del_toks (t - 1) (t + 1) (put_tok (t + 1) (TokNum ?res) s1) = Inr s2"
      and l2: "live s2 = (A @ d # flat_stack (rev st')) @ (TokNum ?res # f # B')" and ok2: "ok s2" by blast
    have m: "2 * length ps + length st' < 2 * length ps + length st" using snoc by simp
    have a1: "\<forall>(y, c) \<in> set st'. binop c" using less.prems(1) snoc by simp
    have a5: "live s2 = A @ d # flat_stack (rev st') @ [TokNum ?res] @ flat_rest ps @ d' # B"
      using l2 fB(1) by simp
    have a8: "t - 2 = length A + 2 * length st'" using t1 by simp
    from less.hyps[OF m a1 CP_num less.prems(3) ok2 a5 less.prems(6) less.prems(7) a8]
    obtain n2 s' where e2: "eval_loop n2 E (t - 2) s2 = Some (Inr (fold_seq ?L st' ?res (vals ps), s'))"
      and l3: "live s' = A @ d # TokNum (fold_seq ?L st' ?res (vals ps)) # d' # B" and ok3: "ok s'" by blast
    let ?N = "max n1 n2"
    have cN: "collapse ?N E t s = Some (Inr s1)" using fuel_mono(1)[OF c1] by simp
    have t2: "2 \<le> t" using t1 by simp
    have "eval_loop (Suc ?N) E t s = eval_loop ?N E (t - 2) s2"
      by (rule eval_loop_fold[OF cN r0 r1 r2 fold t2 rm ap d2])
    also have "\<dots> = Some (Inr (fold_seq ?L st' ?res (vals ps), s'))" using fuel_mono(4)[OF e2] by simp
    finally show ?thesis using l3 ok3 v by auto
  qed
qed

text \<open>Sequences: a first term, then (operator, term) pairs.\<close>

lemma EP_seq:
  assumes "CP E T x" "\<forall>(c, T', x') \<in> set ps. binop c \<and> CP E T' x'"
  shows "EP E (T @ flat_rest ps) (fold_seq (env_libm E) [] x (vals ps))"
  unfolding EP_def
proof (intro allI impI)
  fix s t A d d' B
  let ?v = "fold_seq (env_libm E) [] x (vals ps)"
  assume a: "ok s" "live s = A @ d # (T @ flat_rest ps) @ d' # B" "length A = t" "is_delim d" "closer d'"
  have l: "live s = A @ d # flat_stack (rev []) @ T @ flat_rest ps @ d' # B"
    using a(2) by (simp add: flat_stack_Nil)
  have "\<exists>n s'. eval_loop n E t s = Some (Inr (?v, s')) \<and> live s' = A @ d # TokNum ?v # d' # B \<and> ok s'"
    by (rule eval_loop_wf[OF _ assms(1) assms(2) a(1) l a(4) a(5)]) (simp_all add: a(3))
  then obtain n s' where e: "eval_loop n E t s = Some (Inr (?v, s'))"
    and l': "live s' = A @ d # TokNum ?v # d' # B" and ok': "ok s'" by blast
  have "tok_at s t = Inr d" using tok_at_app[OF a(1), of A d "(T @ flat_rest ps) @ d' # B" t] a(2,3) by simp
  then have "eval (Suc n) E t s = Some (Inr (?v, s'))"
    using a(4) e by (simp add: eval.simps bnd_simps lift_def)
  then show "\<exists>n s'. eval n E t s = Some (Inr (?v, s')) \<and> live s' = A @ d # TokNum ?v # d' # B \<and> ok s'"
    using l' ok' by blast
qed

lemma CP_var:
  assumes "var_loop (env_vars (E :: 'r env)) nm None = Some v"
  shows "CP E [TokIdent nm] v"
  unfolding CP_def
proof (intro allI impI)
  fix s :: "'r state" and t A f B
  assume a: "ok s" "live s = A @ [TokIdent nm] @ f # B" "length A = t + 1" "follower f"
  have l: "live s = A @ TokIdent nm # (f # B)" using a(2) by simp
  have r1: "tok_at s (t + 1) = Inr (TokIdent nm)"
    using tok_at_app[OF a(1) l] a(3) by simp
  have r2: "tok_at s (t + 2) = Inr f"
    using tok_at_app[OF a(1), of "A @ [TokIdent nm]" f B "t + 2"] a(2,3) by simp
  have nf: "f \<noteq> TokOp (CHR ''('')" using a(4) by auto
  have c: "\<not> (t + 2 < toks_size s \<and> tok_at s (t + 2) = Inr (TokOp (CHR ''('')))"
    using r2 nf by simp
  have "collapse (Suc 0) E t s = Some (Inr (put_tok (t + 1) (TokNum v) s))"
    using collapse_var[OF r1 c, of 0 E] assms by simp
  moreover have "live (put_tok (t + 1) (TokNum v) s) = A @ TokNum v # f # B"
    "ok (put_tok (t + 1) (TokNum v) s)"
    using put_tok_live[OF a(1) l, of "t + 1" "TokNum v"] a(3) by simp_all
  ultimately show "\<exists>n s'. collapse n E t s = Some (Inr s') \<and> live s' = A @ TokNum v # f # B \<and> ok s'"
    by blast
qed

lemma CP_minus:
  assumes "CP E T x"
  shows "CP E (TokOp (CHR ''-'') # T) (c_mul (env_libm E) x (c_neg_one (env_libm E)))"
  unfolding CP_def
proof (intro allI impI)
  fix s t A f B
  assume a: "ok s" "live s = A @ (TokOp (CHR ''-'') # T) @ f # B" "length A = t + 1" "follower f"
  have l: "live s = A @ TokOp (CHR ''-'') # (T @ f # B)" using a(2) by simp
  have r1: "tok_at s (t + 1) = Inr (TokOp (CHR ''-''))"
    using tok_at_app[OF a(1) l] a(3) by simp
  have l2: "live s = (A @ [TokOp (CHR ''-'')]) @ T @ f # B" using a(2) by simp
  have la: "length (A @ [TokOp (CHR ''-'')]) = (t + 1) + 1" using a(3) by simp
  from assms[unfolded CP_def, rule_format, OF a(1) l2 la a(4)]
  obtain n s' where c: "collapse n E (t + 1) s = Some (Inr s')"
    and l': "live s' = (A @ [TokOp (CHR ''-'')]) @ TokNum x # f # B" and ok': "ok s'" by blast
  have r2: "tok_at s' (t + 2) = Inr (TokNum x)"
    using tok_at_app[OF ok' l'] a(3) by simp
  let ?y = "c_mul (env_libm E) x (c_neg_one (env_libm E))"
  note pt = put_tok_live[OF ok' l', of "t + 2" "TokNum ?y"]
  have lp: "live (put_tok (t + 2) (TokNum ?y) s') = A @ [TokOp (CHR ''-'')] @ (TokNum ?y # f # B)"
    and okp: "ok (put_tok (t + 2) (TokNum ?y) s')" using pt a(3) by simp_all
  have "\<exists>s''. del_toks (t + 1) (t + 2) (put_tok (t + 2) (TokNum ?y) s') = Inr s''
            \<and> live s'' = A @ (TokNum ?y # f # B) \<and> ok s''"
    by (rule del_toks_live[OF okp lp]) (simp_all add: a(3))
  then obtain s'' where d: "del_toks (t + 1) (t + 2) (put_tok (t + 2) (TokNum ?y) s') = Inr s''"
    and l'': "live s'' = A @ TokNum ?y # f # B" and ok'': "ok s''" by auto
  have r3: "tok_at s'' (t + 1) = Inr (TokNum ?y)"
    using tok_at_app[OF ok'' l''] a(3) by simp
  have "collapse (Suc n) E t s = Some (Inr s'')"
    by (rule collapse_minus[OF r1 c r2 d r3])
  then show "\<exists>n s'. collapse n E t s = Some (Inr s') \<and> live s' = A @ TokNum ?y # f # B \<and> ok s'"
    using l'' ok'' by blast
qed

lemma CP_paren:
  assumes "EP E es v"
  shows "CP E (TokOp (CHR ''('') # es @ [TokOp (CHR '')'')]) v"
  unfolding CP_def
proof (intro allI impI)
  fix s t A f B
  assume a: "ok s" "live s = A @ (TokOp (CHR ''('') # es @ [TokOp (CHR '')'')]) @ f # B"
    "length A = t + 1" "follower f"
  have l: "live s = A @ TokOp (CHR ''('') # es @ TokOp (CHR '')'') # (f # B)" using a(2) by simp
  have r1: "tok_at s (t + 1) = Inr (TokOp (CHR ''(''))"
    using tok_at_app[OF a(1) l] a(3) by simp
  have dl: "is_delim (TokOp (CHR ''('') :: 'a Tok)" "closer (TokOp (CHR '')'') :: 'a Tok)"
    by (simp_all add: op_prec_def closer_def)
  from assms[unfolded EP_def, rule_format, OF a(1) l a(3) dl]
  obtain n s' where e: "eval n E (t + 1) s = Some (Inr (v, s'))"
    and l': "live s' = A @ TokOp (CHR ''('') # TokNum v # TokOp (CHR '')'') # f # B" and ok': "ok s'"
    by blast
  have la: "live s' = (A @ [TokOp (CHR ''('')]) @ TokNum v # (TokOp (CHR '')'') # f # B)"
    using l' by simp
  have lb: "live s' = (A @ [TokOp (CHR ''(''), TokNum v]) @ TokOp (CHR '')'') # (f # B)"
    using l' by simp
  have "scan_delim s' (t + 2) = scan_delim s' (Suc (t + 2))"
    by (rule scan_delim_skip[OF ok' la]) (simp_all add: a(3))
  also have "\<dots> = Inr (Suc (t + 2))"
    by (rule scan_delim_hit[OF ok' lb]) (simp_all add: a(3) op_prec_def)
  finally have sc: "scan_delim s' (t + 2) = Inr (t + 3)" by simp
  have lc: "live s' = (A @ [TokOp (CHR ''('')]) @ [TokNum v, TokOp (CHR '')'')] @ (f # B)"
    using l' by simp
  have "\<exists>s''. del_toks (t + 2) ((t + 3) + 1) s' = Inr s''
            \<and> live s'' = (A @ [TokOp (CHR ''('')]) @ (f # B) \<and> ok s''"
    by (rule del_toks_live[OF ok' lc]) (simp_all add: a(3))
  then obtain s'' where d: "del_toks (t + 2) ((t + 3) + 1) s' = Inr s''"
    and l'': "live s'' = A @ TokOp (CHR ''('') # (f # B)" and ok'': "ok s''" by auto
  have "collapse (Suc n) E t s = Some (Inr (put_tok (t + 1) (TokNum v) s''))"
    by (rule collapse_paren[OF r1 e sc d])
  moreover have "live (put_tok (t + 1) (TokNum v) s'') = A @ TokNum v # f # B"
    "ok (put_tok (t + 1) (TokNum v) s'')"
    using put_tok_live[OF ok'' l'', of "t + 1" "TokNum v"] a(3) by simp_all
  ultimately show "\<exists>n s'. collapse n E t s = Some (Inr s') \<and> live s' = A @ TokNum v # f # B \<and> ok s'"
    by blast
qed

lemma collect_args_more:
  assumes "length args < 16" "eval n E t s = Some (Inr (v, s1))"
    and "scan_delim s1 (t + 1) = Inr k" "tok_at s1 k = Inr (TokOp (CHR '',''))"
    and "del_toks t k s1 = Inr s2"
  shows "collect_args (Suc n) E t args s = collect_args n E t (args @ [v]) s2"
  using assms by (simp add: collect_args.simps bnd_simps lift_def ret_def)

lemma collect_args_last:
  assumes "length args < 16" "eval n E t s = Some (Inr (v, s1))"
    and "scan_delim s1 (t + 1) = Inr k" "tok_at s1 k = Inr (TokOp (CHR '')''))"
    and "del_toks t (k + 1) s1 = Inr s2"
  shows "collect_args (Suc n) E t args s = Some (Inr (args @ [v], s2))"
  using assms by (simp add: collect_args.simps bnd_simps lift_def ret_def)

definition flat_tail :: "'r Tok list list \<Rightarrow> 'r Tok list" where
  "flat_tail es = concat (map (\<lambda>e. TokOp (CHR '','') # e) es)"

lemma flat_tail_simps: "flat_tail [] = []" "flat_tail (e # es) = TokOp (CHR '','') # e @ flat_tail es"
  by (simp_all add: flat_tail_def)

lemma collect_args_wf:
  assumes "\<forall>(e, v) \<in> set ((e0, v0) # es). EP E e v" "length args + length ((e0, v0) # es) \<le> 16"
    and "ok s" "live s = A @ d # e0 @ flat_tail (map fst es) @ TokOp (CHR '')'') # B"
    and "is_delim d" "length A = t"
  shows "\<exists>n s'. collect_args n E t args s = Some (Inr (args @ v0 # map snd es, s'))
           \<and> live s' = A @ B \<and> ok s'"
  using assms
proof (induction es arbitrary: e0 v0 args s d)
  case Nil
  have l: "live s = A @ d # e0 @ TokOp (CHR '')'') # B" using Nil.prems(4) by (simp add: flat_tail_simps)
  have cl: "closer (TokOp (CHR '')'') :: 'a Tok)" by (simp add: closer_def)
  have ep: "EP E e0 v0" using Nil.prems(1) by simp
  from ep[unfolded EP_def, rule_format, OF Nil.prems(3) l Nil.prems(6) Nil.prems(5) cl]
  obtain n s1 where e: "eval n E t s = Some (Inr (v0, s1))"
    and l1: "live s1 = A @ d # TokNum v0 # TokOp (CHR '')'') # B" and ok1: "ok s1" by blast
  have la: "live s1 = (A @ [d]) @ TokNum v0 # (TokOp (CHR '')'') # B)" using l1 by simp
  have lb: "live s1 = (A @ [d, TokNum v0]) @ TokOp (CHR '')'') # B" using l1 by simp
  have "scan_delim s1 (t + 1) = scan_delim s1 (Suc (t + 1))"
    by (rule scan_delim_skip[OF ok1 la]) (simp_all add: Nil.prems(6))
  also have "\<dots> = Inr (Suc (t + 1))"
    by (rule scan_delim_hit[OF ok1 lb]) (simp_all add: Nil.prems(6) op_prec_def)
  finally have sc: "scan_delim s1 (t + 1) = Inr (t + 2)" by simp
  have rk: "tok_at s1 (t + 2) = Inr (TokOp (CHR '')''))"
    using tok_at_app[OF ok1 lb] Nil.prems(6) by simp
  have lc: "live s1 = A @ [d, TokNum v0, TokOp (CHR '')'')] @ B" using l1 by simp
  have "\<exists>s2. del_toks t ((t + 2) + 1) s1 = Inr s2 \<and> live s2 = A @ B \<and> ok s2"
    by (rule del_toks_live[OF ok1 lc]) (simp_all add: Nil.prems(6))
  then obtain s2 where d: "del_toks t ((t + 2) + 1) s1 = Inr s2" and l2: "live s2 = A @ B"
    and ok2: "ok s2" by blast
  have la16: "length args < 16" using Nil.prems(2) by simp
  have "collect_args (Suc n) E t args s = Some (Inr (args @ [v0], s2))"
    by (rule collect_args_last[OF la16 e sc rk d])
  then show ?case using l2 ok2 by fastforce
next
  case (Cons p1 es)
  obtain e1 v1 where p1: "p1 = (e1, v1)" by (cases p1)
  have l: "live s = A @ d # e0 @ TokOp (CHR '','') # (e1 @ flat_tail (map fst es) @ TokOp (CHR '')'') # B)"
    using Cons.prems(4) p1 by (simp add: flat_tail_simps)
  have cl: "closer (TokOp (CHR '','') :: 'a Tok)" by (simp add: closer_def)
  have ep: "EP E e0 v0" using Cons.prems(1) by simp
  from ep[unfolded EP_def, rule_format, OF Cons.prems(3) l Cons.prems(6) Cons.prems(5) cl]
  obtain n s1 where e: "eval n E t s = Some (Inr (v0, s1))"
    and l1: "live s1 = A @ d # TokNum v0 # TokOp (CHR '','') # (e1 @ flat_tail (map fst es) @ TokOp (CHR '')'') # B)"
    and ok1: "ok s1" by blast
  let ?R = "e1 @ flat_tail (map fst es) @ TokOp (CHR '')'') # B"
  have la: "live s1 = (A @ [d]) @ TokNum v0 # (TokOp (CHR '','') # ?R)" using l1 by simp
  have lb: "live s1 = (A @ [d, TokNum v0]) @ TokOp (CHR '','') # ?R" using l1 by simp
  have "scan_delim s1 (t + 1) = scan_delim s1 (Suc (t + 1))"
    by (rule scan_delim_skip[OF ok1 la]) (simp_all add: Cons.prems(6))
  also have "\<dots> = Inr (Suc (t + 1))"
    by (rule scan_delim_hit[OF ok1 lb]) (simp_all add: Cons.prems(6) op_prec_def)
  finally have sc: "scan_delim s1 (t + 1) = Inr (t + 2)" by simp
  have rk: "tok_at s1 (t + 2) = Inr (TokOp (CHR '',''))"
    using tok_at_app[OF ok1 lb] Cons.prems(6) by simp
  have lc: "live s1 = A @ [d, TokNum v0] @ (TokOp (CHR '','') # ?R)" using l1 by simp
  have "\<exists>s2. del_toks t (t + 2) s1 = Inr s2 \<and> live s2 = A @ (TokOp (CHR '','') # ?R) \<and> ok s2"
    by (rule del_toks_live[OF ok1 lc]) (simp_all add: Cons.prems(6))
  then obtain s2 where d: "del_toks t (t + 2) s1 = Inr s2"
    and l2: "live s2 = A @ TokOp (CHR '','') # e1 @ flat_tail (map fst es) @ TokOp (CHR '')'') # B"
    and ok2: "ok s2" by auto
  have la16: "length args < 16" using Cons.prems(2) by simp
  have st: "collect_args (Suc n) E t args s = collect_args n E t (args @ [v0]) s2"
    if "eval n E t s = Some (Inr (v0, s1))" for n
    by (rule collect_args_more[OF la16 that sc rk d])
  have p1': "\<forall>(e, v) \<in> set ((e1, v1) # es). EP E e v" using Cons.prems(1) p1 by simp
  have p2: "length (args @ [v0]) + length ((e1, v1) # es) \<le> 16" using Cons.prems(2) by simp
  have dl: "is_delim (TokOp (CHR '','') :: 'a Tok)" by (simp add: op_prec_def)
  from Cons.IH[OF p1' p2 ok2 l2 dl Cons.prems(6)]
  obtain n2 s' where c2: "collect_args n2 E t (args @ [v0]) s2 = Some (Inr ((args @ [v0]) @ v1 # map snd es, s'))"
    and l': "live s' = A @ B" and ok': "ok s'" by blast
  let ?N = "max n n2"
  have eN: "eval ?N E t s = Some (Inr (v0, s1))" using fuel_mono(3)[OF e] by simp
  have "collect_args (Suc ?N) E t args s = collect_args ?N E t (args @ [v0]) s2" by (rule st[OF eN])
  also have "\<dots> = Some (Inr (args @ v0 # map snd (p1 # es), s'))"
    using fuel_mono(2)[OF c2] p1 by simp
  finally show ?case using l' ok' by fastforce
qed

lemma CP_call:
  assumes "\<forall>(e, v) \<in> set ((e0, v0) # es). EP E e v" "length ((e0, v0) # es) \<le> 16"
    and "call_loop (env_functions E) nm (v0 # map snd es) None = Inr (Some r)"
  shows "CP (E :: 'r env) (TokIdent nm # TokOp (CHR ''('') # e0 @ flat_tail (map fst es) @ [TokOp (CHR '')'')]) r"
  unfolding CP_def
proof (intro allI impI)
  fix s :: "'r state" and t A f B
  assume a: "ok s"
    "live s = A @ (TokIdent nm # TokOp (CHR ''('') # e0 @ flat_tail (map fst es) @ [TokOp (CHR '')'')]) @ f # B"
    "length A = t + 1" "follower f"
  let ?R = "e0 @ flat_tail (map fst es) @ TokOp (CHR '')'') # (f # B)"
  have l: "live s = A @ TokIdent nm # (TokOp (CHR ''('') # ?R)" using a(2) by simp
  have r1: "tok_at s (t + 1) = Inr (TokIdent nm)"
    using tok_at_app[OF a(1) l] a(3) by simp
  have l2: "live s = (A @ [TokIdent nm]) @ TokOp (CHR ''('') # ?R" using a(2) by simp
  have r2: "tok_at s (t + 2) = Inr (TokOp (CHR ''(''))"
    using tok_at_app[OF a(1) l2] a(3) by simp
  have sz: "t + 2 < toks_size s" using length_live[OF a(1)] a(2,3) by simp
  have dl: "is_delim (TokOp (CHR ''('') :: 'r Tok)" by (simp add: op_prec_def)
  have p2: "length ([] :: 'r list) + length ((e0, v0) # es) \<le> 16" using assms(2) by simp
  have la: "length (A @ [TokIdent nm]) = t + 2" using a(3) by simp
  from collect_args_wf[OF assms(1) p2 a(1) l2 dl la]
  obtain n s3 where c: "collect_args n E (t + 2) [] s = Some (Inr ([] @ v0 # map snd es, s3))"
    and l3: "live s3 = (A @ [TokIdent nm]) @ (f # B)"
    and ok3: "ok s3" by blast
  have l3': "live s3 = A @ TokIdent nm # (f # B)" using l3 by simp
  have r3: "tok_at s3 (t + 1) = Inr (TokIdent nm)"
    using tok_at_app[OF ok3 l3'] a(3) by simp
  have c': "collect_args n E (t + 2) [] s = Some (Inr (v0 # map snd es, s3))" using c by simp
  have "collapse (Suc n) E t s = Some (Inr (put_tok (t + 1) (TokNum r) s3))"
    using collapse_call[OF r1 sz r2 c' r3] assms(3) by simp
  moreover have "live (put_tok (t + 1) (TokNum r) s3) = A @ TokNum r # f # B"
    "ok (put_tok (t + 1) (TokNum r) s3)"
    using put_tok_live[OF ok3 l3', of "t + 1" "TokNum r"] a(3) by simp_all
  ultimately show "\<exists>n s'. collapse n E t s = Some (Inr s') \<and> live s' = A @ TokNum r # f # B \<and> ok s'"
    by blast
qed

section \<open>Registry lookups\<close>

text \<open>
  What the two search loops of \<open>collapse\<close> compute.  \<open>last_var vs nm\<close> is the value of the
  last entry registered under \<open>nm\<close>.  \<open>registered fs nm k f\<close>: there are entries named
  \<open>nm\<close>, all of them take \<open>k\<close> arguments, and \<open>f\<close> is the function of the last one.
\<close>

definition last_var :: "'r Var list \<Rightarrow> string \<Rightarrow> 'r option" where
  "last_var vs nm =
     (case filter (\<lambda>x. var_name x = nm) vs of [] \<Rightarrow> None | m # ms \<Rightarrow> Some (var_val (last (m # ms))))"

definition registered :: "'r Function list \<Rightarrow> string \<Rightarrow> nat \<Rightarrow> ('r list \<Rightarrow> 'r) \<Rightarrow> bool" where
  "registered fs nm k f =
     (case filter (\<lambda>F. fn_name F = nm) fs of
        [] \<Rightarrow> False
      | m # ms \<Rightarrow> list_all (\<lambda>F. fn_n_args F = k) (m # ms) \<and> f = fn_func (last (m # ms)))"

lemma var_loop_last:
  "var_loop vs nm acc = (case last_var vs nm of None \<Rightarrow> acc | Some v \<Rightarrow> Some v)"
proof (induction vs arbitrary: acc)
  case Nil
  show ?case by (simp add: last_var_def)
next
  case (Cons x vs)
  show ?case
    by (simp add: Cons.IH) (auto simp: last_var_def split: list.splits)
qed

lemma call_loop_last:
  assumes "\<forall>F \<in> set fs. fn_name F = nm \<longrightarrow> fn_n_args F = length vs"
  shows "call_loop fs nm vs acc =
           Inr (case filter (\<lambda>F. fn_name F = nm) fs of [] \<Rightarrow> acc | m # ms \<Rightarrow> Some (fn_func (last (m # ms)) vs))"
  using assms
proof (induction fs arbitrary: acc)
  case Nil
  show ?case by simp
next
  case (Cons F fs)
  have r: "\<forall>F \<in> set fs. fn_name F = nm \<longrightarrow> fn_n_args F = length vs" using Cons.prems by simp
  show ?case
  proof (cases "nm = fn_name F")
    case True
    then have "fn_n_args F = length vs" using Cons.prems by simp
    then show ?thesis using True Cons.IH[OF r] by (auto split: list.splits)
  next
    case False
    then have "fn_name F \<noteq> nm" by auto
    then show ?thesis using False Cons.IH[OF r] by simp
  qed
qed

lemma call_loop_registered:
  assumes "registered fs nm (length vs) f"
  shows "call_loop fs nm vs None = Inr (Some (f vs))"
proof -
  from assms obtain m ms where f: "filter (\<lambda>F. fn_name F = nm) fs = m # ms"
    and a: "list_all (\<lambda>F. fn_n_args F = length vs) (m # ms)" and ff: "f = fn_func (last (m # ms))"
    by (auto simp: registered_def split: list.splits)
  have "\<forall>F \<in> set (filter (\<lambda>F. fn_name F = nm) fs). fn_n_args F = length vs"
    using a unfolding f by (simp add: list_all_iff)
  then have "\<forall>F \<in> set fs. fn_name F = nm \<longrightarrow> fn_n_args F = length vs" by simp
  from call_loop_last[OF this, of None] show ?thesis using f ff by simp
qed

section \<open>Well-formed expressions and their values\<close>

text \<open>
  The token sequences the evaluator is written for, each with the value it stands for.  A
  term is a number, a registered variable, a minus sign before a term (the term times
  \<open>-1.0\<close>), an expression in parentheses, or a call of a registered function with as many
  arguments as its arity (at most 16, the size of \<open>arg_results\<close>).  \<open>seq_val E es x ps\<close>
  reads \<open>es\<close> as a first term of value \<open>x\<close> followed by operators, each with the value of
  the term after it; the value of the expression is \<open>fold_seq\<close> of these.  Arguments are
  expressions separated by commas.
\<close>

inductive term_val :: "'r env \<Rightarrow> 'r Tok list \<Rightarrow> 'r \<Rightarrow> bool"
  and seq_val :: "'r env \<Rightarrow> 'r Tok list \<Rightarrow> 'r \<Rightarrow> (char \<times> 'r) list \<Rightarrow> bool"
  and args_val :: "'r env \<Rightarrow> 'r Tok list \<Rightarrow> 'r list \<Rightarrow> bool"
  for E :: "'r env"
where
  v_num: "term_val E [TokNum x] x"
| v_var: "last_var (env_vars E) nm = Some v \<Longrightarrow> term_val E [TokIdent nm] v"
| v_neg: "term_val E T x
     \<Longrightarrow> term_val E (TokOp (CHR ''-'') # T) (c_mul (env_libm E) x (c_neg_one (env_libm E)))"
| v_paren: "seq_val E es x ps
     \<Longrightarrow> term_val E (TokOp (CHR ''('') # es @ [TokOp (CHR '')'')]) (fold_seq (env_libm E) [] x ps)"
| v_call: "args_val E as vs \<Longrightarrow> length vs \<le> 16 \<Longrightarrow> registered (env_functions E) nm (length vs) f
     \<Longrightarrow> term_val E (TokIdent nm # TokOp (CHR ''('') # as @ [TokOp (CHR '')'')]) (f vs)"
| v_single: "term_val E T x \<Longrightarrow> seq_val E T x []"
| v_binary: "term_val E T x \<Longrightarrow> binop c \<Longrightarrow> seq_val E es x' ps
     \<Longrightarrow> seq_val E (T @ TokOp c # es) x ((c, x') # ps)"
| v_arg1: "seq_val E e x ps \<Longrightarrow> args_val E e [fold_seq (env_libm E) [] x ps]"
| v_argn: "seq_val E e x ps \<Longrightarrow> args_val E as vs
     \<Longrightarrow> args_val E (e @ TokOp (CHR '','') # as) (fold_seq (env_libm E) [] x ps # vs)"


lemma seq_EP:
  assumes "es = T @ flat_rest qs" "CP E T x" "\<forall>(c, T', x') \<in> set qs. binop c \<and> CP E T' x'"
    and "vals qs = ps"
  shows "EP E es (fold_seq (env_libm E) [] x ps)"
  using EP_seq[OF assms(2,3)] assms(1,4) by simp

lemma val_props:
  "term_val E T x \<Longrightarrow> CP E T x"
  "seq_val E es x ps \<Longrightarrow> \<exists>T qs. es = T @ flat_rest qs \<and> CP E T x
       \<and> (\<forall>(c, T', x') \<in> set qs. binop c \<and> CP E T' x') \<and> vals qs = ps"
  "args_val E as vs \<Longrightarrow> \<exists>e0 v0 es'. as = e0 @ flat_tail (map fst es')
       \<and> (\<forall>(e, v) \<in> set ((e0, v0) # es'). EP E e v) \<and> vs = v0 # map snd es'"
proof (induction rule: term_val_seq_val_args_val.inducts)
  case (v_num x)
  show ?case by (rule CP_num)
next
  case (v_var nm v)
  then have "var_loop (env_vars E) nm None = Some v" by (simp add: var_loop_last)
  then show ?case by (rule CP_var)
next
  case (v_neg T x)
  then show ?case by (simp add: CP_minus)
next
  case (v_paren es x ps)
  then obtain T qs where "es = T @ flat_rest qs" "CP E T x"
    "\<forall>(c, T', x') \<in> set qs. binop c \<and> CP E T' x'" "vals qs = ps"
    by blast
  then have "EP E es (fold_seq (env_libm E) [] x ps)" by (rule seq_EP)
  then show ?case by (rule CP_paren)
next
  case (v_call as vs nm f)
  then obtain e0 v0 es' where as: "as = e0 @ flat_tail (map fst es')"
    and ep: "\<forall>(e, v) \<in> set ((e0, v0) # es'). EP E e v"
    and vs: "vs = v0 # map snd es'" by blast
  have l16: "length vs \<le> 16" and reg: "registered (env_functions E) nm (length vs) f"
    using v_call by simp_all
  have len: "length ((e0, v0) # es') \<le> 16" using l16 vs by simp
  have cl: "call_loop (env_functions E) nm (v0 # map snd es') None = Inr (Some (f vs))"
    using call_loop_registered[OF reg] vs by simp
  have "CP E (TokIdent nm # TokOp (CHR ''('') # e0 @ flat_tail (map fst es') @ [TokOp (CHR '')'')]) (f vs)"
    by (rule CP_call[OF ep len cl])
  then show ?case using as by simp
next
  case (v_single T x)
  then have "T = T @ flat_rest [] \<and> CP E T x \<and> (\<forall>(c, T', x') \<in> set []. binop c \<and> CP E T' x')
        \<and> vals [] = []"
    by (simp add: flat_rest_Nil vals_simps)
  then show ?case by blast
next
  case (v_binary T x c es x' ps)
  then obtain T1 qs where es: "es = T1 @ flat_rest qs" and c1: "CP E T1 x'"
    and qs: "\<forall>(c, T', x') \<in> set qs. binop c \<and> CP E T' x'" and vq: "vals qs = ps" by blast
  have "T @ TokOp c # es = T @ flat_rest ((c, T1, x') # qs)" using es by (simp add: flat_rest_Cons)
  moreover have "\<forall>(c, T', x') \<in> set ((c, T1, x') # qs). binop c \<and> CP E T' x'"
    using qs c1 v_binary by simp
  moreover have "vals ((c, T1, x') # qs) = (c, x') # ps" using vq by (simp add: vals_simps)
  ultimately show ?case using v_binary by blast
next
  case (v_arg1 e x ps)
  then obtain T qs where "e = T @ flat_rest qs" "CP E T x"
    "\<forall>(c, T', x') \<in> set qs. binop c \<and> CP E T' x'" "vals qs = ps"
    by blast
  then have "EP E e (fold_seq (env_libm E) [] x ps)" by (rule seq_EP)
  then have "e = e @ flat_tail (map fst [])
      \<and> (\<forall>(e', v) \<in> set ((e, fold_seq (env_libm E) [] x ps) # []). EP E e' v)
      \<and> [fold_seq (env_libm E) [] x ps] = fold_seq (env_libm E) [] x ps # map snd []"
    by (simp add: flat_tail_simps)
  then show ?case by blast
next
  case (v_argn e x ps as vs)
  then obtain T qs where "e = T @ flat_rest qs" "CP E T x"
    "\<forall>(c, T', x') \<in> set qs. binop c \<and> CP E T' x'" "vals qs = ps"
    by blast
  then have ep: "EP E e (fold_seq (env_libm E) [] x ps)" by (rule seq_EP)
  from v_argn obtain e0 v0 es' where as: "as = e0 @ flat_tail (map fst es')"
    and eps: "\<forall>(e, v) \<in> set ((e0, v0) # es'). EP E e v" and vs: "vs = v0 # map snd es'" by blast
  let ?v = "fold_seq (env_libm E) [] x ps"
  have "e @ TokOp (CHR '','') # as = e @ flat_tail (map fst ((e0, v0) # es'))"
    using as by (simp add: flat_tail_simps)
  moreover have "\<forall>(e', v) \<in> set ((e, ?v) # (e0, v0) # es'). EP E e' v" using ep eps by simp
  moreover have "?v # vs = ?v # map snd ((e0, v0) # es')" using vs by simp
  ultimately show ?case by blast
qed


section \<open>Buffer invariant of the tokenizer\<close>

text \<open>During tokenizing nothing is deleted: the size counter is the length of the written prefix.\<close>

definition tinv :: "'r state \<Rightarrow> bool" where
  "tinv s = (toks_size s = length (toks s) \<and> length (toks s) \<le> TOKS_CAP)"


lemma tinv_live: "tinv s \<Longrightarrow> live s = toks s" by (simp add: tinv_def live_def)

lemma tinv_init: "tinv init_state" by (simp add: tinv_def init_state_def)

lemma push_tok_toks:
  "tinv s \<Longrightarrow> toks (push_tok t s) = take TOKS_CAP (toks s @ [t])"
  by (auto simp: tinv_def push_tok_def put_tok_def)

lemma push_tok_tinv: "tinv s \<Longrightarrow> tinv (push_tok t s)"
  by (auto simp: tinv_def push_tok_def put_tok_def)

lemma push_tok_full: "toks_size s = TOKS_CAP \<Longrightarrow> push_tok t s = s"
  by (simp add: push_tok_def)



section \<open>An input longer than the buffer\<close>

text \<open>\<open>buf xs\<close> is the buffer holding exactly the tokens \<open>xs\<close>.\<close>

definition buf :: "'r Tok list \<Rightarrow> 'r state" where
  "buf xs = \<lparr>toks = xs, toks_size = length xs\<rparr>"

lemma push_tok_buf:
  "length xs < TOKS_CAP \<Longrightarrow> push_tok t (buf xs) = buf (xs @ [t])"
  by (simp add: push_tok_def put_tok_def buf_def)

lemma push_tok_buf_full:
  "length xs = TOKS_CAP \<Longrightarrow> push_tok t (buf xs) = buf xs"
  by (simp add: push_tok_def buf_def)

lemma last_tok_buf: "xs \<noteq> [] \<Longrightarrow> length xs \<le> TOKS_CAP \<Longrightarrow> last_tok (buf xs) = last xs"
  by (cases xs rule: rev_cases) (auto simp: last_tok_def buf_def tok_at_def nth_append TOKS_CAP_def)

lemma one_classes:
  "IS_FLOAT (CHR ''1'')" "\<not> IS_FLOAT (CHR ''^'')" "\<not> IS_ALPHA (CHR ''^'')" "is_op_char (CHR ''^'')"
  by (simp_all add: IS_FLOAT_def IS_ALPHA_def is_op_char_def)

lemma tokenize_pair:
  assumes "xs \<noteq> []" "length xs + 2 \<le> TOKS_CAP" "last xs = TokOp c0" "c0 \<noteq> CHR '')''"
  shows "tokenize_loop L (''1^'' @ rest) pos depth (buf xs) =
         tokenize_loop L rest (pos + 2) depth (buf (xs @ [TokNum (c_strtod L ''1''), TokOp (CHR ''^'')]))"
proof -
  have l: "last_tok (buf xs) = TokOp c0" using last_tok_buf[of xs] assms by simp
  have l2: "last_tok (buf (xs @ [TokNum (c_strtod L ''1'')])) = TokNum (c_strtod L ''1'')"
    using last_tok_buf[of "xs @ [TokNum (c_strtod L ''1'')]"] assms by simp
  have p1: "push_tok (TokNum (c_strtod L ''1'')) (buf xs) = buf (xs @ [TokNum (c_strtod L ''1'')])"
    using push_tok_buf[of xs] assms by simp
  have p2: "push_tok (TokOp (CHR ''^'')) (buf (xs @ [TokNum (c_strtod L ''1'')]))
            = buf (xs @ [TokNum (c_strtod L ''1''), TokOp (CHR ''^'')])"
    using push_tok_buf[of "xs @ [TokNum (c_strtod L ''1'')]"] assms by simp
  show ?thesis
    using assms(4) by (simp add: one_classes l p1 p2 Let_def)
qed

lemma tokenize_pairs:
  assumes "xs \<noteq> []" "length xs + 2 * k \<le> TOKS_CAP" "last xs = TokOp c0" "c0 \<noteq> CHR '')''"
  shows "tokenize_loop L (concat (replicate k ''1^'') @ rest) pos depth (buf xs) =
         tokenize_loop L rest (pos + 2 * k) depth
           (buf (xs @ concat (replicate k [TokNum (c_strtod L ''1''), TokOp (CHR ''^'')])))"
  using assms
proof (induction k arbitrary: xs pos c0)
  case 0
  then show ?case by simp
next
  case (Suc k)
  let ?xs' = "xs @ [TokNum (c_strtod L ''1''), TokOp (CHR ''^'')]"
  have "tokenize_loop L (concat (replicate (Suc k) ''1^'') @ rest) pos depth (buf xs)
        = tokenize_loop L (''1^'' @ (concat (replicate k ''1^'') @ rest)) pos depth (buf xs)"
    by simp
  also have "\<dots> = tokenize_loop L (concat (replicate k ''1^'') @ rest) (pos + 2) depth (buf ?xs')"
    by (rule tokenize_pair[OF Suc.prems(1) _ Suc.prems(3,4)]) (use Suc.prems(2) in simp)
  also have "\<dots> = tokenize_loop L rest ((pos + 2) + 2 * k) depth
           (buf (?xs' @ concat (replicate k [TokNum (c_strtod L ''1''), TokOp (CHR ''^'')])))"
    by (rule Suc.IH[of ?xs' "CHR ''^''"]) (use Suc.prems(2) in simp_all)
  finally show ?case by simp
qed

definition chain_len :: nat where
  "chain_len = 32767"

definition big_expr :: string where
  "big_expr = concat (replicate chain_len ''1^'') @ ''1''"

definition big_toks :: "'r libm \<Rightarrow> 'r Tok list" where
  "big_toks L = TokOp (CHR ''('') # concat (replicate chain_len [TokNum (c_strtod L ''1''), TokOp (CHR ''^'')])
                @ [TokNum (c_strtod L ''1'')]"

lemma length_concat_pairs: "length (concat (replicate k [a, b])) = 2 * k"
  by (induction k) auto

lemma chain_len_cap: "2 * chain_len + 2 = TOKS_CAP"
  by (simp add: chain_len_def TOKS_CAP_def)

lemma length_big_toks: "length (big_toks L) = TOKS_CAP"
  using chain_len_cap by (simp add: big_toks_def length_concat_pairs)

lemma last_concat_pairs: "0 < k \<Longrightarrow> last (xs @ concat (replicate k [a, b])) = b"
  by (induction k arbitrary: xs) (auto simp: last_append)

lemma tokenize_big: "tokenize L big_expr init_state = Inr (buf (big_toks L))"
proof -
  let ?ps = "concat (replicate chain_len [TokNum (c_strtod L ''1''), TokOp (CHR ''^'')])"
  let ?xs = "[TokOp (CHR ''('')] @ ?ps"
  have i: "push_tok (TokOp (CHR ''('')) init_state = buf [TokOp (CHR ''('')]"
    by (simp add: push_tok_def put_tok_def buf_def init_state_def TOKS_CAP_def)
  have a: "tokenize_loop L big_expr 0 0 (buf [TokOp (CHR ''('')])
           = tokenize_loop L ''1'' (0 + 2 * chain_len) 0 (buf ?xs)"
    unfolding big_expr_def
    by (rule tokenize_pairs[of _ _ "CHR ''(''"]) (use chain_len_cap in simp_all)
  have lt: "last ?xs = TokOp (CHR ''^'')"
    by (rule last_concat_pairs) (simp add: chain_len_def)
  have len: "length ?xs = TOKS_CAP - 1" using chain_len_cap by (simp add: length_concat_pairs)
  have ne: "?xs \<noteq> []" by simp
  have lk: "last_tok (buf ?xs) = TokOp (CHR ''^'')"
    using last_tok_buf[OF ne] len lt by simp
  have p: "push_tok (TokNum (c_strtod L ''1'')) (buf ?xs) = buf (big_toks L)"
    using push_tok_buf[of ?xs "TokNum (c_strtod L ''1'')"] len
    by (simp add: big_toks_def TOKS_CAP_def)
  have b: "tokenize_loop L ''1'' (0 + 2 * chain_len) 0 (buf ?xs) = Inr (0, buf (big_toks L))"
    by (simp add: one_classes lk p Let_def del: append.simps)
  have f: "push_tok (TokOp (CHR '')'')) (buf (big_toks L)) = buf (big_toks L)"
    by (rule push_tok_buf_full) (rule length_big_toks)
  have ab: "tokenize_loop L big_expr 0 0 (buf [TokOp (CHR ''('')]) = Inr (0, buf (big_toks L))"
    by (rule trans[OF a b])
  show ?thesis by (simp add: tokenize_def i ab f)
qed



lemma tok_at_buf: "i < length xs \<Longrightarrow> length xs \<le> TOKS_CAP \<Longrightarrow> tok_at (buf xs) i = Inr (xs ! i)"
  by (simp add: tok_at_def buf_def)









section \<open>Termination and result on well-formed input\<close>

definition exact_env :: "real env" where
  "exact_env = \<lparr>env_libm = exact_libm, env_functions = main_functions exact_libm,
                 env_vars = [\<lparr>var_name = ''pi'', var_val = pi\<rparr>, \<lparr>var_name = ''e'', var_val = exp 1\<rparr>]\<rparr>"











section \<open>The variable registry\<close>

text \<open>
  The registries that the program can build: \<open>vars\<close> starts empty and is changed by
  \<open>set_var\<close> and \<open>unset_var\<close> only.
\<close>

inductive reg_reach :: "'r Var list \<Rightarrow> bool" where
  reach_init: "reg_reach []"
| reach_set: "reg_reach vs \<Longrightarrow> set_var n v vs = Inr vs' \<Longrightarrow> reg_reach vs'"
| reach_unset: "reg_reach vs \<Longrightarrow> reg_reach (unset_var n vs)"

lemma set_var_loop_None: "(set_var_loop n v vs = None) = (n \<notin> set (map var_name vs))"
  by (induction vs) auto

lemma set_var_loop_names: "set_var_loop n v vs = Some vs' \<Longrightarrow> map var_name vs' = map var_name vs"
  by (induction vs arbitrary: vs') (auto split: if_splits)

lemma set_var_loop_entry:
  "distinct (map var_name vs) \<Longrightarrow> set_var_loop n v vs = Some vs'
   \<Longrightarrow> filter (\<lambda>x. var_name x = n) vs' = [\<lparr>var_name = n, var_val = v\<rparr>]"
proof (induction vs arbitrary: vs')
  case Nil
  then show ?case by simp
next
  case (Cons x xs)
  show ?case
  proof (cases "var_name x = n")
    case True
    then have "n \<notin> set (map var_name xs)" using Cons.prems(1) by auto
    then have "filter (\<lambda>y. var_name y = n) xs = []" by (auto simp: filter_empty_conv)
    then show ?thesis using True Cons.prems(2) by auto
  next
    case False
    then obtain ys where ys: "set_var_loop n v xs = Some ys" "vs' = x # ys"
      using Cons.prems(2) by auto
    from Cons.IH[OF _ ys(1)] Cons.prems(1) show ?thesis using False ys(2) by simp
  qed
qed

lemma set_var_distinct:
  assumes "distinct (map var_name vs)" "set_var n v vs = Inr vs'"
  shows "distinct (map var_name vs') \<and> filter (\<lambda>x. var_name x = n) vs' = [\<lparr>var_name = n, var_val = v\<rparr>]"
proof (cases "set_var_loop n v vs")
  case None
  then have nn: "n \<notin> set (map var_name vs)" by (simp add: set_var_loop_None)
  then have f: "filter (\<lambda>y. var_name y = n) vs = []" by (auto simp: filter_empty_conv)
  have "vs' = vs @ [\<lparr>var_name = n, var_val = v\<rparr>]"
    using assms(2) None by (simp add: set_var_def split: if_splits)
  then show ?thesis using assms(1) nn f by simp
next
  case (Some ys)
  then have "vs' = ys" using assms(2) by (simp add: set_var_def)
  then show ?thesis using set_var_loop_names[OF Some] set_var_loop_entry[OF assms(1) Some] assms(1)
    by simp
qed

lemma unset_var_names:
  "distinct (map var_name vs) \<Longrightarrow>
   distinct (map var_name (unset_var n vs)) \<and> set (map var_name (unset_var n vs)) = set (map var_name vs) - {n}"
proof (induction vs)
  case Nil
  then show ?case by simp
next
  case (Cons x xs)
  show ?case
  proof (cases "var_name x = n")
    case True
    then have "n \<notin> set (map var_name xs)" using Cons.prems by auto
    then show ?thesis using True Cons.prems by auto
  next
    case False
    have d: "distinct (map var_name xs)" using Cons.prems by simp
    from Cons.IH[OF d] show ?thesis using False Cons.prems by auto
  qed
qed

lemma var_loop_acc: "n \<notin> set (map var_name vs) \<Longrightarrow> var_loop vs n acc = acc"
  by (induction vs arbitrary: acc) auto

lemma var_loop_found:
  "distinct (map var_name vs) \<Longrightarrow> \<lparr>var_name = n, var_val = v\<rparr> \<in> set vs \<Longrightarrow> var_loop vs n acc = Some v"
proof (induction vs arbitrary: acc)
  case Nil
  then show ?case by simp
next
  case (Cons x xs)
  show ?case
  proof (cases "x = \<lparr>var_name = n, var_val = v\<rparr>")
    case True
    then have "n \<notin> set (map var_name xs)" using Cons.prems(1) by auto
    then show ?thesis using True by (simp add: var_loop_acc)
  next
    case False
    then have m: "\<lparr>var_name = n, var_val = v\<rparr> \<in> set xs" using Cons.prems(2) by simp
    have d: "distinct (map var_name xs)" using Cons.prems(1) by simp
    show ?thesis using Cons.IH[OF d m] by simp
  qed
qed

lemma reg_reach_distinct: "reg_reach vs \<Longrightarrow> distinct (map var_name vs)"
proof (induction rule: reg_reach.induct)
  case reach_init
  show ?case by simp
next
  case (reach_set vs n v vs')
  have d: "distinct (map var_name vs)" and s: "set_var n v vs = Inr vs'" using reach_set by simp_all
  from set_var_distinct[OF d s] show ?case by simp
next
  case (reach_unset vs n)
  then have d: "distinct (map var_name vs)" by simp
  from unset_var_names[OF d] show ?case by simp
qed

text \<open>
  Claim C9.  A registry built from the empty one by \<open>set_var\<close> and \<open>unset_var\<close> never
  holds two entries with one name.  On such a registry \<open>set_var n v\<close>, where it returns,
  leaves exactly one entry named \<open>n\<close>, with value \<open>v\<close>, which is the value the lookup of
  \<open>collapse\<close> finds; it overwrites in place, so the names stay as they were when \<open>n\<close> was
  registered already.  \<open>unset_var n\<close> leaves no entry named \<open>n\<close> and keeps the others.
  After \<open>set_var "x" a\<close> and \<open>set_var "x" b\<close> there is exactly one entry for \<open>x\<close>, with
  value \<open>b\<close>; from the empty registry, with 5 and 7, the registry is that one entry.
\<close>

theorem registry_one_entry_per_name:
  assumes "reg_reach vs"
  shows "distinct (map var_name vs)
         \<and> (\<forall>vs'. set_var n v vs = Inr vs' \<longrightarrow>
            distinct (map var_name vs')
            \<and> filter (\<lambda>x. var_name x = n) vs' = [\<lparr>var_name = n, var_val = v\<rparr>]
            \<and> var_loop vs' n None = Some v
            \<and> (n \<in> set (map var_name vs) \<longrightarrow> map var_name vs' = map var_name vs))
         \<and> distinct (map var_name (unset_var n vs))
         \<and> set (map var_name (unset_var n vs)) = set (map var_name vs) - {n}
         \<and> (\<forall>vs1 vs2. set_var ''x'' a vs = Inr vs1 \<longrightarrow> set_var ''x'' b vs1 = Inr vs2 \<longrightarrow>
               distinct (map var_name vs2)
               \<and> filter (\<lambda>x. var_name x = ''x'') vs2 = [\<lparr>var_name = ''x'', var_val = b\<rparr>])
         \<and> (\<exists>vs1. set_var ''x'' c [] = Inr vs1
               \<and> set_var ''x'' d vs1 = Inr [\<lparr>var_name = ''x'', var_val = d\<rparr>])"
proof (intro conjI allI impI)
  show dd: "distinct (map var_name vs)" by (rule reg_reach_distinct[OF assms])
  {
    fix vs' assume s: "set_var n v vs = Inr vs'"
    from set_var_distinct[OF dd s]
    show d: "distinct (map var_name vs')"
      and f: "filter (\<lambda>x. var_name x = n) vs' = [\<lparr>var_name = n, var_val = v\<rparr>]" by simp_all
    have "\<lparr>var_name = n, var_val = v\<rparr> \<in> set (filter (\<lambda>x. var_name x = n) vs')" using f by simp
    then have "\<lparr>var_name = n, var_val = v\<rparr> \<in> set vs'" by simp
    then show "var_loop vs' n None = Some v" using var_loop_found[OF d] by simp
    assume m: "n \<in> set (map var_name vs)"
    then obtain ys where ys: "set_var_loop n v vs = Some ys"
      using set_var_loop_None[of n v vs] by (cases "set_var_loop n v vs") auto
    then have "vs' = ys" using s by (simp add: set_var_def)
    then show "map var_name vs' = map var_name vs" using set_var_loop_names[OF ys] by simp
  }
  show "distinct (map var_name (unset_var n vs))" using unset_var_names[OF dd] by simp
  show "set (map var_name (unset_var n vs)) = set (map var_name vs) - {n}"
    using unset_var_names[OF dd, of n] by simp
  {
    fix vs1 vs2 assume a: "set_var ''x'' a vs = Inr vs1" "set_var ''x'' b vs1 = Inr vs2"
    have d1: "distinct (map var_name vs1)" using set_var_distinct[OF dd a(1)] by simp
    from set_var_distinct[OF d1 a(2)]
    show "distinct (map var_name vs2)"
      "filter (\<lambda>x. var_name x = ''x'') vs2 = [\<lparr>var_name = ''x'', var_val = b\<rparr>]" by simp_all
  }
  show "\<exists>vs1. set_var ''x'' c [] = Inr vs1
               \<and> set_var ''x'' d vs1 = Inr [\<lparr>var_name = ''x'', var_val = d\<rparr>]"
    by (simp add: set_var_def VARS_CAP_def)
qed

theorem registry_one_entry_per_name_witness:
  "reg_reach [\<lparr>var_name = ''pi'', var_val = (3::real)\<rparr>]
   \<and> set_var ''x'' 5 [\<lparr>var_name = ''pi'', var_val = (3::real)\<rparr>]
       = Inr [\<lparr>var_name = ''pi'', var_val = 3\<rparr>, \<lparr>var_name = ''x'', var_val = 5\<rparr>]
   \<and> set_var ''x'' 7 [\<lparr>var_name = ''pi'', var_val = (3::real)\<rparr>, \<lparr>var_name = ''x'', var_val = 5\<rparr>]
       = Inr [\<lparr>var_name = ''pi'', var_val = 3\<rparr>, \<lparr>var_name = ''x'', var_val = 7\<rparr>]
   \<and> filter (\<lambda>x. var_name x = ''x'')
        [\<lparr>var_name = ''pi'', var_val = (3::real)\<rparr>, \<lparr>var_name = ''x'', var_val = 7\<rparr>]
       = [\<lparr>var_name = ''x'', var_val = 7\<rparr>]
   \<and> var_loop [\<lparr>var_name = ''pi'', var_val = (3::real)\<rparr>, \<lparr>var_name = ''x'', var_val = 5\<rparr>] ''x'' None
       = Some 5"
proof -
  have s0: "set_var ''pi'' (3::real) [] = Inr [\<lparr>var_name = ''pi'', var_val = 3\<rparr>]"
    by (simp add: set_var_def VARS_CAP_def)
  have r: "reg_reach [\<lparr>var_name = ''pi'', var_val = (3::real)\<rparr>]"
    by (rule reach_set[OF reach_init s0])
  have s1: "set_var ''x'' 5 [\<lparr>var_name = ''pi'', var_val = (3::real)\<rparr>]
            = Inr [\<lparr>var_name = ''pi'', var_val = 3\<rparr>, \<lparr>var_name = ''x'', var_val = 5\<rparr>]"
    by (simp add: set_var_def VARS_CAP_def)
  have s2: "set_var ''x'' 7 [\<lparr>var_name = ''pi'', var_val = (3::real)\<rparr>, \<lparr>var_name = ''x'', var_val = 5\<rparr>]
            = Inr [\<lparr>var_name = ''pi'', var_val = 3\<rparr>, \<lparr>var_name = ''x'', var_val = 7\<rparr>]"
    by (simp add: set_var_def VARS_CAP_def)
  note t = registry_one_entry_per_name[OF r, of "''x''" 5 5 7 0 0]
  from t s1 s2
  have "filter (\<lambda>x. var_name x = ''x'') [\<lparr>var_name = ''pi'', var_val = (3::real)\<rparr>, \<lparr>var_name = ''x'', var_val = 7\<rparr>]
        = [\<lparr>var_name = ''x'', var_val = 7\<rparr>]" by blast
  moreover from t s1
  have "var_loop [\<lparr>var_name = ''pi'', var_val = (3::real)\<rparr>, \<lparr>var_name = ''x'', var_val = 5\<rparr>] ''x'' None
       = Some 5" by blast
  ultimately show ?thesis using r s1 s2 by blast
qed

section \<open>Unary minus\<close>

lemma collapse_minus_live:
  assumes "ok s" "live s = A @ TokOp (CHR ''-'') # R" "length A = t + 1"
    and "collapse n E (t + 1) s = Some (Inr s')" "ok s'"
    and "live s' = A @ TokOp (CHR ''-'') # TokNum y # R'"
  shows "\<exists>s''. collapse (Suc n) E t s = Some (Inr s'')
           \<and> live s'' = A @ TokNum (c_mul (env_libm E) y (c_neg_one (env_libm E))) # R' \<and> ok s''"
proof -
  let ?y = "c_mul (env_libm E) y (c_neg_one (env_libm E))"
  have r1: "tok_at s (t + 1) = Inr (TokOp (CHR ''-''))"
    using tok_at_app[OF assms(1,2)] assms(3) by simp
  have l': "live s' = (A @ [TokOp (CHR ''-'')]) @ TokNum y # R'" using assms(6) by simp
  have r2: "tok_at s' (t + 2) = Inr (TokNum y)"
    using tok_at_app[OF assms(5) l'] assms(3) by simp
  note pt = put_tok_live[OF assms(5) l', of "t + 2" "TokNum ?y"]
  have lp: "live (put_tok (t + 2) (TokNum ?y) s') = A @ [TokOp (CHR ''-'')] @ (TokNum ?y # R')"
    and okp: "ok (put_tok (t + 2) (TokNum ?y) s')" using pt assms(3) by simp_all
  have "\<exists>s''. del_toks (t + 1) (t + 2) (put_tok (t + 2) (TokNum ?y) s') = Inr s''
            \<and> live s'' = A @ (TokNum ?y # R') \<and> ok s''"
    by (rule del_toks_live[OF okp lp]) (simp_all add: assms(3))
  then obtain s'' where d: "del_toks (t + 1) (t + 2) (put_tok (t + 2) (TokNum ?y) s') = Inr s''"
    and l'': "live s'' = A @ TokNum ?y # R'" and ok'': "ok s''" by auto
  have r3: "tok_at s'' (t + 1) = Inr (TokNum ?y)"
    using tok_at_app[OF ok'' l''] assms(3) by simp
  have "collapse (Suc n) E t s = Some (Inr s'')"
    by (rule collapse_minus[OF r1 assms(4) r2 d r3])
  then show ?thesis using l'' ok'' by blast
qed

lemma collapse_minus_pow:
  "collapse 10 E 0
     \<lparr>toks = [TokOp (CHR ''(''), TokOp (CHR ''-''), TokNum x, TokOp (CHR ''^''),
              TokNum y, TokOp (CHR '')'')], toks_size = 6\<rparr> =
   Some (Inr \<lparr>toks = [TokOp (CHR ''(''), TokNum (c_mul (env_libm E) x (c_neg_one (env_libm E))),
                       TokOp (CHR ''^''), TokNum y, TokOp (CHR '')''), TokOp (CHR '')'')],
              toks_size = 5\<rparr>)"
  by (simp add: eval_defs cong: run_congs)

lemma run_minus_generic:
  "run 50 L ''-2^2'' = Some (Inr (c_pow L (c_mul L (c_strtod L ''2'') (c_neg_one L)) (c_strtod L ''2'')))"
  "run 50 L ''- -3'' = Some (Inr (c_mul L (c_mul L (c_strtod L ''3'') (c_neg_one L)) (c_neg_one L)))"
  "run 50 L ''-sqrt(4)'' = Some (Inr (c_mul L (c_sqrt L (c_strtod L ''4'')) (c_neg_one L)))"
  by (simp_all add: run_defs cong: run_congs)

lemma run_minus_exact:
  "run 50 exact_libm ''-2^2'' = Some (Inr 4)"
  "run 50 exact_libm ''- -3'' = Some (Inr 3)"
  "run 50 exact_libm ''-sqrt(4)'' = Some (Inr (- 2))"
  by (simp_all add: run_minus_generic exact_defs)

lemma minus_term:
  assumes "term_val E T y" "ok s" "live s = A @ TokOp (CHR ''-'') # T @ f # B" "length A = t + 1"
    and "follower f"
  shows "\<exists>n s'. collapse n E t s = Some (Inr s')
           \<and> live s' = A @ TokNum (c_mul (env_libm E) y (c_neg_one (env_libm E))) # f # B \<and> ok s'"
proof -
  have "CP E (TokOp (CHR ''-'') # T) (c_mul (env_libm E) y (c_neg_one (env_libm E)))"
    by (rule CP_minus[OF val_props(1)[OF assms(1)]])
  moreover have "live s = A @ (TokOp (CHR ''-'') # T) @ f # B" using assms(3) by simp
  ultimately show ?thesis using assms(2,4,5) unfolding CP_def by blast
qed

text \<open>
  Claim C2.  A unary minus under the cursor is handled by \<open>collapse\<close> before the loop of
  \<open>eval\<close> compares any operators.  One step: if the recursive call of \<open>collapse\<close> on the
  minus sign has turned the right-hand neighbour into the number \<open>y\<close>, then \<open>collapse\<close>
  replaces the minus sign and that number by the number \<open>y * -1.0\<close> and changes nothing
  else.  In general: a minus sign before any well-formed term of value \<open>y\<close> is collapsed,
  together with the term, to \<open>y * -1.0\<close>.  On the tokens of \<open>-a^b\<close> \<open>collapse\<close> negates
  \<open>a\<close> and leaves the operator \<open>^\<close> unfolded, so \<open>-2^2\<close> is \<open>(-2)^2\<close>; the three examples
  are evaluated for every arithmetic and in exact arithmetic (4, 3 and -2).
\<close>

theorem unary_minus_collapse:
  "(\<forall>s t A R n s' y R'.
      ok s \<and> live s = A @ TokOp (CHR ''-'') # R \<and> length A = t + 1
      \<and> collapse n E (t + 1) s = Some (Inr s') \<and> ok s'
      \<and> live s' = A @ TokOp (CHR ''-'') # TokNum y # R'
      \<longrightarrow> (\<exists>s''. collapse (Suc n) E t s = Some (Inr s'')
             \<and> live s'' = A @ TokNum (c_mul (env_libm E) y (c_neg_one (env_libm E))) # R' \<and> ok s''))
   \<and> (\<forall>T y s t A f B.
      term_val E T y \<and> ok s \<and> live s = A @ TokOp (CHR ''-'') # T @ f # B \<and> length A = t + 1
      \<and> follower f
      \<longrightarrow> (\<exists>n s'. collapse n E t s = Some (Inr s')
             \<and> live s' = A @ TokNum (c_mul (env_libm E) y (c_neg_one (env_libm E))) # f # B \<and> ok s'))
   \<and> collapse 10 E 0
        \<lparr>toks = [TokOp (CHR ''(''), TokOp (CHR ''-''), TokNum a, TokOp (CHR ''^''),
                 TokNum b, TokOp (CHR '')'')], toks_size = 6\<rparr> =
      Some (Inr \<lparr>toks = [TokOp (CHR ''(''), TokNum (c_mul (env_libm E) a (c_neg_one (env_libm E))),
                          TokOp (CHR ''^''), TokNum b, TokOp (CHR '')''), TokOp (CHR '')'')],
                 toks_size = 5\<rparr>)
   \<and> run 50 L ''-2^2'' = Some (Inr (c_pow L (c_mul L (c_strtod L ''2'') (c_neg_one L)) (c_strtod L ''2'')))
   \<and> run 50 L ''- -3'' = Some (Inr (c_mul L (c_mul L (c_strtod L ''3'') (c_neg_one L)) (c_neg_one L)))
   \<and> run 50 L ''-sqrt(4)'' = Some (Inr (c_mul L (c_sqrt L (c_strtod L ''4'')) (c_neg_one L)))
   \<and> run 50 exact_libm ''-2^2'' = Some (Inr 4)
   \<and> run 50 exact_libm ''- -3'' = Some (Inr 3)
   \<and> run 50 exact_libm ''-sqrt(4)'' = Some (Inr (- 2))"
proof (intro conjI allI impI)
  fix s :: "'a state" and t A R n s' y R'
  assume "ok s \<and> live s = A @ TokOp (CHR ''-'') # R \<and> length A = t + 1
      \<and> collapse n E (t + 1) s = Some (Inr s') \<and> ok s'
      \<and> live s' = A @ TokOp (CHR ''-'') # TokNum y # R'"
  then show "\<exists>s''. collapse (Suc n) E t s = Some (Inr s'')
             \<and> live s'' = A @ TokNum (c_mul (env_libm E) y (c_neg_one (env_libm E))) # R' \<and> ok s''"
    using collapse_minus_live[of s A R t n E s' y R'] by blast
next
  fix T y and s :: "'a state" and t A f B
  assume "term_val E T y \<and> ok s \<and> live s = A @ TokOp (CHR ''-'') # T @ f # B \<and> length A = t + 1
      \<and> follower f"
  then show "\<exists>n s'. collapse n E t s = Some (Inr s')
             \<and> live s' = A @ TokNum (c_mul (env_libm E) y (c_neg_one (env_libm E))) # f # B \<and> ok s'"
    using minus_term[of E T y s A f B t] by blast
qed (use collapse_minus_pow[of E a b] run_minus_generic[of L] run_minus_exact in simp_all)

definition plain_env :: "real env" where
  "plain_env = \<lparr>env_libm = exact_libm, env_functions = [], env_vars = []\<rparr>"

definition minus_pow_state :: "real state" where
  "minus_pow_state = \<lparr>toks = [TokOp (CHR ''(''), TokOp (CHR ''-''), TokNum 2, TokOp (CHR ''^''),
                             TokNum 2, TokOp (CHR '')'')], toks_size = 6\<rparr>"

theorem unary_minus_collapse_witness:
  "ok minus_pow_state
   \<and> live minus_pow_state = [TokOp (CHR ''('')] @ TokOp (CHR ''-'') # [TokNum 2, TokOp (CHR ''^''), TokNum 2, TokOp (CHR '')'')]
   \<and> length [TokOp (CHR ''('') :: real Tok] = 0 + 1
   \<and> collapse 9 plain_env (0 + 1) minus_pow_state = Some (Inr minus_pow_state)
   \<and> term_val plain_env [TokNum 2] 2
   \<and> follower (TokOp (CHR ''^'') :: real Tok)
   \<and> (\<exists>s''. collapse (Suc 9) plain_env 0 minus_pow_state = Some (Inr s'')
         \<and> live s'' = [TokOp (CHR ''('')] @ TokNum (- 2) # [TokOp (CHR ''^''), TokNum 2, TokOp (CHR '')'')]
         \<and> ok s'')
   \<and> (\<exists>n s'. collapse n plain_env 0 minus_pow_state = Some (Inr s')
         \<and> live s' = [TokOp (CHR ''(''), TokNum (- 2), TokOp (CHR ''^''), TokNum 2, TokOp (CHR '')'')]
         \<and> ok s')"
proof -
  have h1: "ok minus_pow_state" by (simp add: ok_def minus_pow_state_def TOKS_CAP_def)
  have h2: "live minus_pow_state = [TokOp (CHR ''('')] @ TokOp (CHR ''-'') # [TokNum 2, TokOp (CHR ''^''), TokNum 2, TokOp (CHR '')'')]"
    by (simp add: live_def minus_pow_state_def)
  have h3: "length [TokOp (CHR ''('') :: real Tok] = 0 + 1" by simp
  have h4: "collapse 9 plain_env (0 + 1) minus_pow_state = Some (Inr minus_pow_state)"
    by (simp add: minus_pow_state_def eval_defs cong: run_congs)
  have h6: "live minus_pow_state = [TokOp (CHR ''('')] @ TokOp (CHR ''-'') # TokNum 2 # [TokOp (CHR ''^''), TokNum 2, TokOp (CHR '')'')]"
    by (simp add: live_def minus_pow_state_def)
  have h7: "term_val plain_env [TokNum 2] 2" by (rule v_num)
  have h8: "follower (TokOp (CHR ''^'') :: real Tok)" by simp
  have h9: "live minus_pow_state = [TokOp (CHR ''('')] @ TokOp (CHR ''-'') # [TokNum 2] @ TokOp (CHR ''^'') # [TokNum 2, TokOp (CHR '')'')]"
    by (simp add: live_def minus_pow_state_def)
  note th = unary_minus_collapse[of plain_env 0 0 exact_libm]
  from th
  have "\<forall>s t A R n s' y R'.
      ok s \<and> live s = A @ TokOp (CHR ''-'') # R \<and> length A = t + 1
      \<and> collapse n plain_env (t + 1) s = Some (Inr s') \<and> ok s'
      \<and> live s' = A @ TokOp (CHR ''-'') # TokNum y # R'
      \<longrightarrow> (\<exists>s''. collapse (Suc n) plain_env t s = Some (Inr s'')
             \<and> live s'' = A @ TokNum (c_mul (env_libm plain_env) y (c_neg_one (env_libm plain_env))) # R' \<and> ok s'')"
    by (rule conjunct1)
  from this[rule_format, of minus_pow_state "[TokOp (CHR ''('')]" _ 0 9 minus_pow_state 2] h1 h2 h3 h4 h6
  have "\<exists>s''. collapse (Suc 9) plain_env 0 minus_pow_state = Some (Inr s'')
         \<and> live s'' = [TokOp (CHR ''('')] @ TokNum (c_mul (env_libm plain_env) 2 (c_neg_one (env_libm plain_env))) # [TokOp (CHR ''^''), TokNum 2, TokOp (CHR '')'')]
         \<and> ok s''" by blast
  then have a: "\<exists>s''. collapse (Suc 9) plain_env 0 minus_pow_state = Some (Inr s'')
         \<and> live s'' = [TokOp (CHR ''('')] @ TokNum (- 2) # [TokOp (CHR ''^''), TokNum 2, TokOp (CHR '')'')]
         \<and> ok s''" by (simp add: plain_env_def exact_libm_def)
  from th
  have "\<forall>T y s t A f B.
      term_val plain_env T y \<and> ok s \<and> live s = A @ TokOp (CHR ''-'') # T @ f # B \<and> length A = t + 1
      \<and> follower f
      \<longrightarrow> (\<exists>n s'. collapse n plain_env t s = Some (Inr s')
             \<and> live s' = A @ TokNum (c_mul (env_libm plain_env) y (c_neg_one (env_libm plain_env))) # f # B \<and> ok s')"
    by (elim conjE)
  from this[rule_format, of "[TokNum 2]" 2 minus_pow_state "[TokOp (CHR ''('')]" "TokOp (CHR ''^'')"
      "[TokNum 2, TokOp (CHR '')'')]" 0] h1 h9 h3 h7 h8
  have "\<exists>n s'. collapse n plain_env 0 minus_pow_state = Some (Inr s')
         \<and> live s' = [TokOp (CHR ''('')] @ TokNum (c_mul (env_libm plain_env) 2 (c_neg_one (env_libm plain_env))) # TokOp (CHR ''^'') # [TokNum 2, TokOp (CHR '')'')]
         \<and> ok s'" by blast
  then have b: "\<exists>n s'. collapse n plain_env 0 minus_pow_state = Some (Inr s')
         \<and> live s' = [TokOp (CHR ''(''), TokNum (- 2), TokOp (CHR ''^''), TokNum 2, TokOp (CHR '')'')]
         \<and> ok s'" by (simp add: plain_env_def exact_libm_def)
  show ?thesis using h1 h2 h3 h4 h7 h8 a b by blast
qed

section \<open>Function calls and variables\<close>

lemma call_loop_absent: "nm \<notin> set (map fn_name fs) \<Longrightarrow> call_loop fs nm args acc = Inr acc"
  by (induction fs arbitrary: acc) auto

lemma call_loop_entry:
  "distinct (map fn_name fs) \<Longrightarrow> F \<in> set fs \<Longrightarrow>
   call_loop fs (fn_name F) args acc =
     (if length args = fn_n_args F then Inr (Some (fn_func F args))
      else Inl (ArityMismatch (fn_name F) (fn_n_args F) (length args)))"
proof (induction fs arbitrary: acc)
  case Nil
  then show ?case by simp
next
  case (Cons G fs)
  show ?case
  proof (cases "G = F")
    case True
    then have "fn_name F \<notin> set (map fn_name fs)" using Cons.prems(1) by auto
    then show ?thesis using True by (simp add: call_loop_absent)
  next
    case False
    then have m: "F \<in> set fs" using Cons.prems(2) by simp
    then have "fn_name G \<noteq> fn_name F" using Cons.prems(1) by auto
    moreover have "distinct (map fn_name fs)" using Cons.prems(1) by simp
    ultimately show ?thesis using Cons.IH[OF _ m] by simp
  qed
qed

lemma collapse_call_live:
  assumes "ok s" "live s = A @ TokIdent nm # TokOp (CHR ''('') # R" "length A = t + 1"
    and "collect_args n E (t + 2) [] s = Some (Inr (args, s3))" "ok s3"
    and "live s3 = A @ TokIdent nm # R'"
  shows "collapse (Suc n) E t s =
         (case call_loop (env_functions E) nm args None of
            Inl e \<Rightarrow> Some (Inl e)
          | Inr None \<Rightarrow> Some (Inl (UnknownFunction nm))
          | Inr (Some r) \<Rightarrow> Some (Inr (put_tok (t + 1) (TokNum r) s3)))"
    and "live (put_tok (t + 1) (TokNum r) s3) = A @ TokNum r # R'"
    and "ok (put_tok (t + 1) (TokNum r) s3)"
proof -
  have r1: "tok_at s (t + 1) = Inr (TokIdent nm)"
    using tok_at_app[OF assms(1,2)] assms(3) by simp
  have l2: "live s = (A @ [TokIdent nm]) @ TokOp (CHR ''('') # R" using assms(2) by simp
  have r2: "tok_at s (t + 2) = Inr (TokOp (CHR ''(''))"
    using tok_at_app[OF assms(1) l2] assms(3) by simp
  have sz: "t + 2 < toks_size s" using length_live[OF assms(1)] assms(2,3) by simp
  have r3: "tok_at s3 (t + 1) = Inr (TokIdent nm)"
    using tok_at_app[OF assms(5,6)] assms(3) by simp
  show "collapse (Suc n) E t s =
         (case call_loop (env_functions E) nm args None of
            Inl e \<Rightarrow> Some (Inl e)
          | Inr None \<Rightarrow> Some (Inl (UnknownFunction nm))
          | Inr (Some r) \<Rightarrow> Some (Inr (put_tok (t + 1) (TokNum r) s3)))"
    by (rule collapse_call[OF r1 sz r2 assms(4) r3])
  show "live (put_tok (t + 1) (TokNum r) s3) = A @ TokNum r # R'"
    "ok (put_tok (t + 1) (TokNum r) s3)"
    using put_tok_live[OF assms(5,6), of "t + 1" "TokNum r"] assms(3) by simp_all
qed


lemma run_call_generic:
  "run 50 L ''sqrt(16)'' = Some (Inr (c_sqrt L (c_strtod L ''16'')))"
  "run 50 L ''pow(2,10)'' = Some (Inr (c_pow L (c_strtod L ''2'') (c_strtod L ''10'')))"
  "run 50 L ''sqrt(1,2)'' = Some (Inl (ArityMismatch ''sqrt'' 1 2))"
  by (simp_all add: run_defs cong: run_congs)

lemma run_call_exact:
  "run 50 exact_libm ''sqrt(16)'' = Some (Inr 4)"
  "run 50 exact_libm ''pow(2,10)'' = Some (Inr 1024)"
  by (simp_all add: run_call_generic exact_defs)






lemma call_args:
  assumes "args_val E as vs" "length vs \<le> 16" "ok s"
    and "live s = A @ TokIdent nm # TokOp (CHR ''('') # as @ TokOp (CHR '')'') # R" "length A = t + 1"
  shows "\<exists>n s3. collect_args n E (t + 2) [] s = Some (Inr (vs, s3))
           \<and> live s3 = A @ TokIdent nm # R \<and> ok s3"
proof -
  from val_props(3)[OF assms(1)] obtain e0 v0 es' where as: "as = e0 @ flat_tail (map fst es')"
    and ep: "\<forall>(e, v) \<in> set ((e0, v0) # es'). EP E e v"
    and vs: "vs = v0 # map snd es'" by blast
  have l2: "live s = (A @ [TokIdent nm]) @ TokOp (CHR ''('') # e0 @ flat_tail (map fst es') @ TokOp (CHR '')'') # R"
    using assms(4) as by simp
  have dl: "is_delim (TokOp (CHR ''('') :: 'a Tok)" by (simp add: op_prec_def)
  have p2: "length ([] :: 'a list) + length ((e0, v0) # es') \<le> 16" using assms(2) vs by simp
  have la: "length (A @ [TokIdent nm]) = t + 2" using assms(5) by simp
  from collect_args_wf[OF ep p2 assms(3) l2 dl la]
  obtain n s3 where c: "collect_args n E (t + 2) [] s = Some (Inr ([] @ v0 # map snd es', s3))"
    and l3: "live s3 = (A @ [TokIdent nm]) @ R" and ok3: "ok s3" by blast
  then show ?thesis using vs by auto
qed

lemma call_collapse:
  assumes "args_val E as vs" "length vs \<le> 16" "ok s"
    and "live s = A @ TokIdent nm # TokOp (CHR ''('') # as @ TokOp (CHR '')'') # R" "length A = t + 1"
  shows "\<exists>n s3. collapse n E t s =
           (case call_loop (env_functions E) nm vs None of
              Inl e \<Rightarrow> Some (Inl e)
            | Inr None \<Rightarrow> Some (Inl (UnknownFunction nm))
            | Inr (Some r) \<Rightarrow> Some (Inr (put_tok (t + 1) (TokNum r) s3)))
         \<and> (\<forall>r. live (put_tok (t + 1) (TokNum r) s3) = A @ TokNum r # R
                \<and> ok (put_tok (t + 1) (TokNum r) s3))"
proof -
  from call_args[OF assms] obtain n s3 where c: "collect_args n E (t + 2) [] s = Some (Inr (vs, s3))"
    and l3: "live s3 = A @ TokIdent nm # R" and ok3: "ok s3" by blast
  have l: "live s = A @ TokIdent nm # TokOp (CHR ''('') # (as @ TokOp (CHR '')'') # R)"
    using assms(4) by simp
  note cl = collapse_call_live[OF assms(3) l assms(5) c ok3 l3]
  show ?thesis using cl(1) cl(2) cl(3) by blast
qed

lemma run_many_args:
  "run 200 L ''sqrt(1,1,1,1,1,1,1,1,1,1,1,1,1,1,1,1,zz)'' = Some (Inl (ArityMismatch ''sqrt'' 1 16))"
  "run 200 L ''sqrt(zz)'' = Some (Inl (UnknownVariable ''zz''))"
  by (simp_all add: run_defs cong: run_congs)

lemma main_functions_distinct:
  "map fn_name (main_functions L) =
     [''sqrt'', ''pow'', ''mod'', ''round'', ''floor'', ''ceil'', ''sin'', ''cos'']"
  "map fn_n_args (main_functions L) = [1, 2, 2, 1, 1, 1, 1, 1]"
  by (simp_all add: main_functions_def add_func_def FUNCTIONS_CAP_def)

text \<open>
  Claim C5, as amended: for a call with at most 16 arguments, the size of \<open>arg_results\<close>
  (the counterexample below is a call with 17).

  Let the buffer hold, after \<open>A\<close>, an identifier \<open>nm\<close>, an opening parenthesis, the
  arguments \<open>as\<close> (well-formed expressions of values \<open>vs\<close>, separated by commas) and the
  closing parenthesis.  Then the argument loop evaluates every argument by a call of \<open>eval\<close>,
  collects exactly the values \<open>vs\<close> and deletes the parentheses and the arguments; and
  \<open>collapse\<close> ends as the search of the registry on \<open>nm\<close> and \<open>vs\<close> does: with the
  error of the search, with \<open>UnknownFunction\<close>, or with the name replaced by the number the
  search returns, so that the whole call has become that one number.  The search, on a
  registry with one entry per name, fails with \<open>ArityMismatch\<close> when the number of values
  differs from the arity of the entry and returns the function of the entry applied to the
  values otherwise.  \<open>main\<close> registers the eight built-ins under distinct names; with them
  \<open>sqrt(16)\<close> is the library's \<open>sqrt\<close> of 16 (4 in exact arithmetic), \<open>pow(2,10)\<close> its
  \<open>pow\<close> of 2 and 10 (1024), and \<open>sqrt(1,2)\<close> fails with \<open>ArityMismatch\<close>.
\<close>

theorem function_call_collapse:
  "(\<forall>as vs s t A R nm.
      args_val E as vs \<and> length vs \<le> 16 \<and> ok s
      \<and> live s = A @ TokIdent nm # TokOp (CHR ''('') # as @ TokOp (CHR '')'') # R \<and> length A = t + 1
      \<longrightarrow> (\<exists>n s3. collect_args n E (t + 2) [] s = Some (Inr (vs, s3))
               \<and> live s3 = A @ TokIdent nm # R \<and> ok s3)
        \<and> (\<exists>n s3. collapse n E t s =
                 (case call_loop (env_functions E) nm vs None of
                    Inl e \<Rightarrow> Some (Inl e)
                  | Inr None \<Rightarrow> Some (Inl (UnknownFunction nm))
                  | Inr (Some r) \<Rightarrow> Some (Inr (put_tok (t + 1) (TokNum r) s3)))
               \<and> (\<forall>r. live (put_tok (t + 1) (TokNum r) s3) = A @ TokNum r # R
                      \<and> ok (put_tok (t + 1) (TokNum r) s3))))
   \<and> (\<forall>F args. distinct (map fn_name (env_functions E)) \<and> F \<in> set (env_functions E)
      \<longrightarrow> call_loop (env_functions E) (fn_name F) args None =
            (if length args = fn_n_args F then Inr (Some (fn_func F args))
             else Inl (ArityMismatch (fn_name F) (fn_n_args F) (length args))))
   \<and> map fn_name (main_functions L) =
        [''sqrt'', ''pow'', ''mod'', ''round'', ''floor'', ''ceil'', ''sin'', ''cos'']
   \<and> map fn_n_args (main_functions L) = [1, 2, 2, 1, 1, 1, 1, 1]
   \<and> run 50 L ''sqrt(16)'' = Some (Inr (c_sqrt L (c_strtod L ''16'')))
   \<and> run 50 L ''pow(2,10)'' = Some (Inr (c_pow L (c_strtod L ''2'') (c_strtod L ''10'')))
   \<and> run 50 L ''sqrt(1,2)'' = Some (Inl (ArityMismatch ''sqrt'' 1 2))
   \<and> run 50 exact_libm ''sqrt(16)'' = Some (Inr 4)
   \<and> run 50 exact_libm ''pow(2,10)'' = Some (Inr 1024)"
proof (intro conjI allI impI)
  fix as vs and s :: "'a state" and t A R nm
  assume a: "args_val E as vs \<and> length vs \<le> 16 \<and> ok s
      \<and> live s = A @ TokIdent nm # TokOp (CHR ''('') # as @ TokOp (CHR '')'') # R \<and> length A = t + 1"
  show "\<exists>n s3. collect_args n E (t + 2) [] s = Some (Inr (vs, s3))
               \<and> live s3 = A @ TokIdent nm # R \<and> ok s3"
    using call_args[of E as vs s A nm R t] a by blast
  show "\<exists>n s3. collapse n E t s =
                 (case call_loop (env_functions E) nm vs None of
                    Inl e \<Rightarrow> Some (Inl e)
                  | Inr None \<Rightarrow> Some (Inl (UnknownFunction nm))
                  | Inr (Some r) \<Rightarrow> Some (Inr (put_tok (t + 1) (TokNum r) s3)))
               \<and> (\<forall>r. live (put_tok (t + 1) (TokNum r) s3) = A @ TokNum r # R
                      \<and> ok (put_tok (t + 1) (TokNum r) s3))"
    using call_collapse[of E as vs s A nm R t] a by blast
next
  fix F args
  assume "distinct (map fn_name (env_functions E)) \<and> F \<in> set (env_functions E)"
  then show "call_loop (env_functions E) (fn_name F) args None =
            (if length args = fn_n_args F then Inr (Some (fn_func F args))
             else Inl (ArityMismatch (fn_name F) (fn_n_args F) (length args)))"
    using call_loop_entry[of "env_functions E" F args None] by blast
qed (use main_functions_distinct[of L] run_call_generic[of L] run_call_exact in simp_all)

text \<open>
  The claim as stated fails for a call with more than 16 arguments: the 17th is not
  evaluated.  Evaluating the unregistered variable \<open>zz\<close> is an error, as the call
  \<open>sqrt(zz)\<close> shows, but as the 17th argument it is deleted unread, and the count that is
  checked and reported is 16.
\<close>

theorem many_arguments_counterexample:
  "run 200 exact_libm ''sqrt(1,1,1,1,1,1,1,1,1,1,1,1,1,1,1,1,zz)''
     = Some (Inl (ArityMismatch ''sqrt'' 1 16))
   \<and> run 200 exact_libm ''sqrt(zz)'' = Some (Inl (UnknownVariable ''zz''))"
  by (simp add: run_many_args)

definition sqrt_call_state :: "real state" where
  "sqrt_call_state = \<lparr>toks = [TokOp (CHR ''(''), TokIdent ''sqrt'', TokOp (CHR ''(''), TokNum 16,
                             TokOp (CHR '')''), TokOp (CHR '')'')], toks_size = 6\<rparr>"

theorem function_call_collapse_witness:
  "args_val exact_env [TokNum 16] [16] \<and> length [16 :: real] \<le> 16 \<and> ok sqrt_call_state
   \<and> live sqrt_call_state = [TokOp (CHR ''('')] @ TokIdent ''sqrt'' # TokOp (CHR ''('') # [TokNum 16]
         @ TokOp (CHR '')'') # [TokOp (CHR '')'')]
   \<and> length [TokOp (CHR ''('') :: real Tok] = 0 + 1
   \<and> distinct (map fn_name (env_functions exact_env))
   \<and> \<lparr>fn_name = ''sqrt'', fn_func = fn_sqrt exact_libm, fn_n_args = 1\<rparr> \<in> set (env_functions exact_env)
   \<and> call_loop (env_functions exact_env) ''sqrt'' [16] None = Inr (Some 4)
   \<and> call_loop (env_functions exact_env) ''sqrt'' [1, 2] None = Inl (ArityMismatch ''sqrt'' 1 2)
   \<and> (\<exists>n s'. collapse n exact_env 0 sqrt_call_state = Some (Inr s')
         \<and> live s' = [TokOp (CHR ''(''), TokNum 4, TokOp (CHR '')'')])"
proof -
  let ?F = "\<lparr>fn_name = ''sqrt'', fn_func = fn_sqrt exact_libm, fn_n_args = 1\<rparr>"
  have h1: "args_val exact_env [TokNum 16] [16]"
    using v_arg1[OF v_single[OF v_num], of exact_env 16] by simp
  have h2: "length [16 :: real] \<le> 16" by simp
  have h3: "ok sqrt_call_state" by (simp add: ok_def sqrt_call_state_def TOKS_CAP_def)
  have h4: "live sqrt_call_state = [TokOp (CHR ''('')] @ TokIdent ''sqrt'' # TokOp (CHR ''('') # [TokNum 16]
         @ TokOp (CHR '')'') # [TokOp (CHR '')'')]"
    by (simp add: live_def sqrt_call_state_def)
  have h5: "length [TokOp (CHR ''('') :: real Tok] = 0 + 1" by simp
  have h6: "distinct (map fn_name (env_functions exact_env))"
    by (simp add: exact_env_def main_functions_distinct)
  have h7: "?F \<in> set (env_functions exact_env)"
    by (simp add: exact_env_def main_functions_def add_func_def FUNCTIONS_CAP_def)
  note th = function_call_collapse[of exact_env exact_libm]
  from th have c2: "\<forall>F args. distinct (map fn_name (env_functions exact_env)) \<and> F \<in> set (env_functions exact_env)
      \<longrightarrow> call_loop (env_functions exact_env) (fn_name F) args None =
            (if length args = fn_n_args F then Inr (Some (fn_func F args))
             else Inl (ArityMismatch (fn_name F) (fn_n_args F) (length args)))"
    by (elim conjE)
  have k1: "call_loop (env_functions exact_env) ''sqrt'' [16] None = Inr (Some 4)"
    using c2[rule_format, of ?F "[16]"] h6 h7 by (simp add: fn_sqrt_def exact_libm_def exact_sqrt_values)
  have k2: "call_loop (env_functions exact_env) ''sqrt'' [1, 2] None = Inl (ArityMismatch ''sqrt'' 1 2)"
    using c2[rule_format, of ?F "[1, 2]"] h6 h7 by simp
  from th have c1: "\<forall>as vs s t A R nm.
      args_val exact_env as vs \<and> length vs \<le> 16 \<and> ok s
      \<and> live s = A @ TokIdent nm # TokOp (CHR ''('') # as @ TokOp (CHR '')'') # R \<and> length A = t + 1
      \<longrightarrow> (\<exists>n s3. collect_args n exact_env (t + 2) [] s = Some (Inr (vs, s3))
               \<and> live s3 = A @ TokIdent nm # R \<and> ok s3)
        \<and> (\<exists>n s3. collapse n exact_env t s =
                 (case call_loop (env_functions exact_env) nm vs None of
                    Inl e \<Rightarrow> Some (Inl e)
                  | Inr None \<Rightarrow> Some (Inl (UnknownFunction nm))
                  | Inr (Some r) \<Rightarrow> Some (Inr (put_tok (t + 1) (TokNum r) s3)))
               \<and> (\<forall>r. live (put_tok (t + 1) (TokNum r) s3) = A @ TokNum r # R
                      \<and> ok (put_tok (t + 1) (TokNum r) s3)))"
    by (rule conjunct1)
  from c1[rule_format, of "[TokNum 16]" "[16]" sqrt_call_state "[TokOp (CHR ''('')]" "''sqrt''"
      "[TokOp (CHR '')'')]" 0] h1 h2 h3 h4 h5
  obtain n s3 where c: "collapse n exact_env 0 sqrt_call_state =
                 (case call_loop (env_functions exact_env) ''sqrt'' [16] None of
                    Inl e \<Rightarrow> Some (Inl e)
                  | Inr None \<Rightarrow> Some (Inl (UnknownFunction ''sqrt''))
                  | Inr (Some r) \<Rightarrow> Some (Inr (put_tok (0 + 1) (TokNum r) s3)))"
    and l: "\<forall>r. live (put_tok (0 + 1) (TokNum r) s3) = [TokOp (CHR ''('')] @ TokNum r # [TokOp (CHR '')'')]
                      \<and> ok (put_tok (0 + 1) (TokNum r) s3)"
    by blast
  have "collapse n exact_env 0 sqrt_call_state = Some (Inr (put_tok (0 + 1) (TokNum 4) s3))"
    using c k1 by simp
  moreover have "live (put_tok (0 + 1) (TokNum 4) s3) = [TokOp (CHR ''(''), TokNum 4, TokOp (CHR '')'')]"
    using l by simp
  ultimately have "\<exists>n s'. collapse n exact_env 0 sqrt_call_state = Some (Inr s')
         \<and> live s' = [TokOp (CHR ''(''), TokNum 4, TokOp (CHR '')'')]" by blast
  then show ?thesis using h1 h2 h3 h4 h5 h6 h7 k1 k2 by blast
qed

section \<open>Unknown names\<close>









section \<open>What the tokenizer accepts\<close>

text \<open>
  The input as the loop of \<open>tokenize\<close> sees it, the characters before the first NUL; the
  characters the loop has a case for; and the number of opening minus the number of
  closing parentheses of a string.
\<close>

definition c_str :: "string \<Rightarrow> string" where
  "c_str expr = takeWhile (\<lambda>c. c \<noteq> CHR 0x00) expr"

definition recognized :: "char \<Rightarrow> bool" where
  "recognized c = (c = CHR '' '' \<or> IS_FLOAT c \<or> IS_ALPHA c \<or> is_op_char c)"

definition paren_depth :: "string \<Rightarrow> int" where
  "paren_depth cs = int (count_list cs (CHR ''('')) - int (count_list cs (CHR '')''))"

text \<open>
  A scan of the input character by character that only follows the parenthesis count:
  the reference for the errors of \<open>tokenize\<close>.
\<close>

fun scan :: "string \<Rightarrow> nat \<Rightarrow> nat \<Rightarrow> error + nat" where
  "scan [] pos d = Inr d"
| "scan (c # cs) pos d =
     (if \<not> recognized c then Inl (UnrecognizedCharacter pos c)
      else if c = CHR '')'' then (if d = 0 then Inl UnmatchedCloseParen else scan cs (pos + 1) (d - 1))
      else if c = CHR ''('' then scan cs (pos + 1) (d + 1)
      else scan cs (pos + 1) d)"

lemma class_plain:
  "IS_FLOAT c \<or> IS_ALPHA c \<Longrightarrow>
     c \<noteq> CHR 0x00 \<and> c \<noteq> CHR '' '' \<and> c \<noteq> CHR ''('' \<and> c \<noteq> CHR '')'' \<and> recognized c"
  by (auto simp: IS_FLOAT_def IS_ALPHA_def recognized_def)

lemma float_run_class: "x \<in> set (float_run i cs) \<Longrightarrow> IS_FLOAT x"
  by (induction cs arbitrary: i) (auto split: if_splits)

lemma alpha_run_class: "x \<in> set (alpha_run i cs) \<Longrightarrow> IS_ALPHA x"
  by (induction cs arbitrary: i) (auto split: if_splits)

lemma float_run_prefix: "float_run i cs @ drop (length (float_run i cs)) cs = cs"
  by (induction cs arbitrary: i) auto

lemma alpha_run_prefix: "alpha_run i cs @ drop (length (alpha_run i cs)) cs = cs"
  by (induction cs arbitrary: i) auto

lemma scan_skip:
  "\<forall>x \<in> set p. IS_FLOAT x \<or> IS_ALPHA x \<Longrightarrow> scan (p @ r) pos d = scan r (pos + length p) d"
proof (induction p arbitrary: pos)
  case Nil
  show ?case by simp
next
  case (Cons c p)
  have "IS_FLOAT c \<or> IS_ALPHA c" using Cons.prems by simp
  from class_plain[OF this] show ?case using Cons by simp
qed

lemma c_str_skip: "\<forall>x \<in> set p. IS_FLOAT x \<or> IS_ALPHA x \<Longrightarrow> c_str (p @ r) = p @ c_str r"
  unfolding c_str_def using class_plain by (intro takeWhile_append2) blast

lemma scan_run:
  assumes "\<forall>x \<in> set (c # p). IS_FLOAT x \<or> IS_ALPHA x"
  shows "scan (c_str (c # p @ r)) pos d = scan (c_str r) (pos + length (c # p)) d"
proof -
  have "c_str ((c # p) @ r) = (c # p) @ c_str r" by (rule c_str_skip[OF assms])
  then show ?thesis using scan_skip[OF assms, of "c_str r" pos d] by simp
qed

lemma c_str_Cons: "c_str (c # cs) = (if c = CHR 0x00 then [] else c # c_str cs)"
  by (simp add: c_str_def)

lemma tokenize_loop_scan:
  "map_sum id fst (tokenize_loop L cs pos depth s) = scan (c_str cs) pos depth"
proof (induction L cs pos depth s rule: tokenize_loop.induct)
  case (1 L pos depth s)
  show ?case by (simp add: c_str_def)
next
  case (2 L c cs pos depth s)
  consider (nul) "c = CHR 0x00"
    | (sp) "c \<noteq> CHR 0x00" "c = CHR '' ''"
    | (fl) "c \<noteq> CHR 0x00" "c \<noteq> CHR '' ''" "IS_FLOAT c"
    | (al) "c \<noteq> CHR 0x00" "c \<noteq> CHR '' ''" "\<not> IS_FLOAT c" "IS_ALPHA c"
    | (ot) "c \<noteq> CHR 0x00" "c \<noteq> CHR '' ''" "\<not> IS_FLOAT c" "\<not> IS_ALPHA c"
    by blast
  then show ?case
  proof cases
    case nul
    then show ?thesis by (simp add: c_str_Cons)
  next
    case sp
    from "2.IH"(1)[OF sp] show ?thesis using sp by (simp add: c_str_Cons recognized_def)
  next
    case fl
    let ?p = "float_run 1 cs"
    let ?r = "drop (length ?p) cs"
    have cl: "\<forall>x \<in> set (c # ?p). IS_FLOAT x \<or> IS_ALPHA x" using fl(3) float_run_class by auto
    have "scan (c_str (c # ?p @ ?r)) pos depth = scan (c_str ?r) (pos + length (c # ?p)) depth"
      by (rule scan_run[OF cl])
    then have e: "scan (c_str (c # cs)) pos depth = scan (c_str ?r) (pos + length (c # ?p)) depth"
      by (simp add: float_run_prefix)
    from "2.IH"(2)[OF fl refl refl refl] show ?thesis using fl e by (simp add: Let_def)
  next
    case al
    let ?p = "alpha_run 1 cs"
    let ?r = "drop (length ?p) cs"
    have cl: "\<forall>x \<in> set (c # ?p). IS_FLOAT x \<or> IS_ALPHA x" using al(4) alpha_run_class by auto
    have "scan (c_str (c # ?p @ ?r)) pos depth = scan (c_str ?r) (pos + length (c # ?p)) depth"
      by (rule scan_run[OF cl])
    then have e: "scan (c_str (c # cs)) pos depth = scan (c_str ?r) (pos + length (c # ?p)) depth"
      by (simp add: alpha_run_prefix)
    from "2.IH"(3)[OF al refl refl] show ?thesis using al e by (simp add: Let_def)
  next
    case ot
    show ?thesis
    proof (cases "c = CHR '')'' \<and> depth = 0")
      case True
      then show ?thesis using ot by (simp add: c_str_Cons recognized_def is_op_char_def)
    next
      case False
      show ?thesis
      proof (cases "is_op_char c")
        case True
        from "2.IH"(4)[OF ot False refl True refl] show ?thesis
          using ot False True by (auto simp: c_str_Cons recognized_def Let_def)
      next
        case nop: False
        then show ?thesis using ot False by (auto simp: c_str_Cons recognized_def Let_def is_op_char_def)
      qed
    qed
  qed
qed

lemma paren_depth_simps:
  "paren_depth [] = 0"
  "paren_depth (c # cs) =
     (if c = CHR ''('' then 1 else if c = CHR '')'' then - 1 else 0) + paren_depth cs"
  by (simp_all add: paren_depth_def)

lemma all_prefix_Cons:
  "(\<forall>i \<le> length (c # cs). Q (take i (c # cs))) = (Q [] \<and> (\<forall>i \<le> length cs. Q (c # take i cs)))"
proof (intro iffI conjI allI impI)
  assume a: "\<forall>i \<le> length (c # cs). Q (take i (c # cs))"
  from a[rule_format, of 0] show "Q []" by simp
  fix i assume "i \<le> length cs"
  then show "Q (c # take i cs)" using a[rule_format, of "Suc i"] by simp
next
  fix i assume a: "Q [] \<and> (\<forall>i \<le> length cs. Q (c # take i cs))" and i: "i \<le> length (c # cs)"
  show "Q (take i (c # cs))"
  proof (cases i)
    case 0
    then show ?thesis using a by simp
  next
    case (Suc j)
    then show ?thesis using a i by simp
  qed
qed

lemma scan_Inr:
  "(scan cs pos d = Inr d') =
     ((\<forall>c \<in> set cs. recognized c)
      \<and> (\<forall>i \<le> length cs. 0 \<le> int d + paren_depth (take i cs))
      \<and> int d' = int d + paren_depth cs)"
proof (induction cs arbitrary: pos d)
  case Nil
  show ?case by (auto simp: paren_depth_simps)
next
  case (Cons c cs)
  note all = all_prefix_Cons[where Q = "\<lambda>xs. 0 \<le> int d + paren_depth xs" and c = c and cs = cs]
  show ?case
  proof (cases "recognized c")
    case False
    then show ?thesis by simp
  next
    case True
    show ?thesis
    proof (cases "c = CHR '')''")
      case cl: True
      show ?thesis
      proof (cases "d = 0")
        case True
        have "\<not> 0 \<le> int d + paren_depth (c # take 0 cs)" using True cl by (simp add: paren_depth_simps)
        then have "\<not> (\<forall>i \<le> length cs. 0 \<le> int d + paren_depth (c # take i cs))" by blast
        then show ?thesis unfolding all using True cl \<open>recognized c\<close> by simp
      next
        case False
        have e: "\<And>X. int (d - 1) + X = int d + (- 1 + X)" using False by simp
        have s: "scan (c # cs) pos d = scan cs (pos + 1) (d - 1)" using cl \<open>recognized c\<close> False by simp
        show ?thesis unfolding all s Cons.IH[of "pos + 1" "d - 1"] e
          using cl \<open>recognized c\<close> by (simp add: paren_depth_simps)
      qed
    next
      case ncl: False
      show ?thesis
      proof (cases "c = CHR ''(''")
        case True
        have e: "\<And>X. int (d + 1) + X = int d + (1 + X)" by simp
        have s: "scan (c # cs) pos d = scan cs (pos + 1) (d + 1)" using True \<open>recognized c\<close> by simp
        show ?thesis unfolding all s Cons.IH[of "pos + 1" "d + 1"] e
          using True \<open>recognized c\<close> by (simp add: paren_depth_simps)
      next
        case False
        have s: "scan (c # cs) pos d = scan cs (pos + 1) d" using False ncl \<open>recognized c\<close> by simp
        show ?thesis unfolding all s Cons.IH[of "pos + 1" d]
          using False ncl \<open>recognized c\<close> by (simp add: paren_depth_simps)
      qed
    qed
  qed
qed

lemma scan_unrecognized:
  "scan cs pos d = Inl (UnrecognizedCharacter i c) \<Longrightarrow>
     pos \<le> i \<and> i - pos < length cs \<and> cs ! (i - pos) = c \<and> \<not> recognized c"
proof (induction cs arbitrary: pos d)
  case Nil
  then show ?case by simp
next
  case (Cons x cs)
  show ?case
  proof (cases "recognized x")
    case False
    then show ?thesis using Cons.prems by simp
  next
    case True
    then obtain d1 where "scan cs (pos + 1) d1 = Inl (UnrecognizedCharacter i c)"
      using Cons.prems by (auto split: if_splits)
    from Cons.IH[OF this] have a: "pos + 1 \<le> i" "i - (pos + 1) < length cs"
      "cs ! (i - (pos + 1)) = c" "\<not> recognized c" by simp_all
    have e: "i - pos = Suc (i - (pos + 1))" using a(1) by simp
    have "(x # cs) ! (i - pos) = c" unfolding e using a(3) by simp
    moreover have "i - pos < length (x # cs)" unfolding e using a(2) by simp
    ultimately show ?thesis using a(1,4) by simp
  qed
qed

lemma scan_close:
  "scan cs pos d = Inl UnmatchedCloseParen \<Longrightarrow>
     \<exists>i < length cs. cs ! i = CHR '')'' \<and> int d + paren_depth (take i cs) = 0"
proof (induction cs arbitrary: pos d)
  case Nil
  then show ?case by simp
next
  case (Cons x cs)
  show ?case
  proof (cases "x = CHR '')'' \<and> d = 0")
    case True
    then have "0 < length (x # cs) \<and> (x # cs) ! 0 = CHR '')'' \<and> int d + paren_depth (take 0 (x # cs)) = 0"
      by (simp add: paren_depth_simps)
    then show ?thesis by blast
  next
    case False
    let ?d1 = "if x = CHR '')'' then d - 1 else if x = CHR ''('' then d + 1 else d"
    have s: "scan cs (pos + 1) ?d1 = Inl UnmatchedCloseParen"
      using Cons.prems False by (auto split: if_splits)
    from Cons.IH[OF s] obtain i where i: "i < length cs" "cs ! i = CHR '')''"
      "int ?d1 + paren_depth (take i cs) = 0" by blast
    have "int d + paren_depth (take (Suc i) (x # cs)) = 0"
      using i(3) False by (auto simp: paren_depth_simps split: if_splits)
    then have "Suc i < length (x # cs) \<and> (x # cs) ! Suc i = CHR '')''
        \<and> int d + paren_depth (take (Suc i) (x # cs)) = 0" using i by simp
    then show ?thesis by blast
  qed
qed

lemma scan_errors:
  "scan cs pos d = Inl e \<Longrightarrow> (\<exists>i c. e = UnrecognizedCharacter i c) \<or> e = UnmatchedCloseParen"
  by (induction cs arbitrary: pos d) (auto split: if_splits)

lemma scan_unrecognized_prefix:
  "scan cs pos d = Inl (UnrecognizedCharacter i c) \<Longrightarrow> \<exists>d'. scan (take (i - pos) cs) pos d = Inr d'"
proof (induction cs arbitrary: pos d)
  case Nil
  then show ?case by simp
next
  case (Cons x cs)
  show ?case
  proof (cases "recognized x")
    case False
    then have "i = pos" using Cons.prems by simp
    then show ?thesis by simp
  next
    case True
    let ?d1 = "if x = CHR '')'' then d - 1 else if x = CHR ''('' then d + 1 else d"
    have nz: "\<not> (x = CHR '')'' \<and> d = 0)" using Cons.prems True by (auto split: if_splits)
    have s: "scan cs (pos + 1) ?d1 = Inl (UnrecognizedCharacter i c)"
      using Cons.prems True by (auto split: if_splits)
    from scan_unrecognized[OF s] have "pos + 1 \<le> i" by simp
    then have e: "i - pos = Suc (i - (pos + 1))" by simp
    from Cons.IH[OF s] obtain d' where "scan (take (i - (pos + 1)) cs) (pos + 1) ?d1 = Inr d'" by blast
    then have "scan (take (i - pos) (x # cs)) pos d = Inr d'"
      unfolding e using True nz by auto
    then show ?thesis by blast
  qed
qed

lemma scan_close_prefix:
  "scan cs pos d = Inl UnmatchedCloseParen \<Longrightarrow>
     \<exists>i < length cs. cs ! i = CHR '')'' \<and> scan (take i cs) pos d = Inr 0"
proof (induction cs arbitrary: pos d)
  case Nil
  then show ?case by simp
next
  case (Cons x cs)
  show ?case
  proof (cases "x = CHR '')'' \<and> d = 0")
    case True
    then have "0 < length (x # cs) \<and> (x # cs) ! 0 = CHR '')'' \<and> scan (take 0 (x # cs)) pos d = Inr 0"
      by simp
    then show ?thesis by blast
  next
    case False
    let ?d1 = "if x = CHR '')'' then d - 1 else if x = CHR ''('' then d + 1 else d"
    have r: "recognized x" using Cons.prems by (auto split: if_splits)
    have s: "scan cs (pos + 1) ?d1 = Inl UnmatchedCloseParen"
      using Cons.prems False by (auto split: if_splits)
    from Cons.IH[OF s] obtain i where i: "i < length cs" "cs ! i = CHR '')''"
      "scan (take i cs) (pos + 1) ?d1 = Inr 0" by blast
    have "scan (take (Suc i) (x # cs)) pos d = Inr 0" using i(3) False r by auto
    then have "Suc i < length (x # cs) \<and> (x # cs) ! Suc i = CHR '')''
        \<and> scan (take (Suc i) (x # cs)) pos d = Inr 0" using i by simp
    then show ?thesis by blast
  qed
qed

lemma tokenize_scan:
  "scan (c_str expr) 0 0 = Inl e \<Longrightarrow> tokenize L expr s = Inl e"
  "scan (c_str expr) 0 0 = Inr d \<Longrightarrow> 0 < d \<Longrightarrow> tokenize L expr s = Inl UnmatchedOpenParen"
  "scan (c_str expr) 0 0 = Inr 0 \<Longrightarrow> \<exists>s'. tokenize L expr s = Inr s'"
proof -
  let ?r = "tokenize_loop L expr 0 0 (push_tok (TokOp (CHR ''('')) s)"
  have m: "map_sum id fst ?r = scan (c_str expr) 0 0" by (rule tokenize_loop_scan)
  show "tokenize L expr s = Inl e" if "scan (c_str expr) 0 0 = Inl e"
    using m that by (cases ?r) (auto simp: tokenize_def)
  show "tokenize L expr s = Inl UnmatchedOpenParen" if "scan (c_str expr) 0 0 = Inr d" "0 < d"
    using m that by (cases ?r) (auto simp: tokenize_def)
  show "\<exists>s'. tokenize L expr s = Inr s'" if "scan (c_str expr) 0 0 = Inr 0"
    using m that by (cases ?r) (auto simp: tokenize_def)
qed

lemma c_str_nth: "i < length (c_str expr) \<Longrightarrow> c_str expr ! i = expr ! i"
  unfolding c_str_def by (rule takeWhile_nth)

lemma tokenize_errors:
  "tokenize L ''(1+2'' init_state = Inl UnmatchedOpenParen"
  "tokenize L ''1+2)'' init_state = Inl UnmatchedCloseParen"
  "tokenize L ''1@2'' init_state = Inl (UnrecognizedCharacter 1 (CHR ''@''))"
  by (simp_all add: tokenize_defs Let_def cong: run_congs)

lemma tokenize_fails_iff:
  "(\<exists>e. tokenize L expr s = Inl e) =
     ((\<exists>c \<in> set (c_str expr). \<not> recognized c)
      \<or> (\<exists>i \<le> length (c_str expr). paren_depth (take i (c_str expr)) < 0)
      \<or> 0 < paren_depth (c_str expr))"
proof (cases "scan (c_str expr) 0 0")
  case (Inl e)
  have "\<not> (\<exists>d'. scan (c_str expr) 0 0 = Inr d')" using Inl by simp
  then have "\<not> ((\<forall>c \<in> set (c_str expr). recognized c)
      \<and> (\<forall>i \<le> length (c_str expr). 0 \<le> paren_depth (take i (c_str expr))))"
    using scan_Inr[of "c_str expr" 0 0 "nat (paren_depth (c_str expr))"]
    by (metis add_0 int_nat_eq le_refl of_nat_0 take_all)
  then have "(\<exists>c \<in> set (c_str expr). \<not> recognized c)
      \<or> (\<exists>i \<le> length (c_str expr). paren_depth (take i (c_str expr)) < 0)"
    by (meson not_le)
  moreover have "\<exists>e. tokenize L expr s = Inl e" using tokenize_scan(1)[OF Inl] by blast
  ultimately show ?thesis by blast
next
  case (Inr d)
  from Inr[unfolded scan_Inr] have a: "\<forall>c \<in> set (c_str expr). recognized c"
    "\<forall>i \<le> length (c_str expr). 0 \<le> paren_depth (take i (c_str expr))"
    "int d = paren_depth (c_str expr)" by simp_all
  have n: "\<not> ((\<exists>c \<in> set (c_str expr). \<not> recognized c)
      \<or> (\<exists>i \<le> length (c_str expr). paren_depth (take i (c_str expr)) < 0))"
    using a(1,2) by (meson not_le)
  show ?thesis
  proof (cases "0 < d")
    case True
    then show ?thesis using tokenize_scan(2)[OF Inr True] a(3) by auto
  next
    case False
    then have "d = 0" by simp
    then obtain s' where "tokenize L expr s = Inr s'" using tokenize_scan(3) Inr by blast
    then show ?thesis using n a(3) \<open>d = 0\<close> by auto
  qed
qed

lemma tokenize_error_kinds:
  assumes "tokenize L expr s = Inl e"
  shows "(\<exists>i c. e = UnrecognizedCharacter i c) \<or> e = UnmatchedCloseParen \<or> e = UnmatchedOpenParen"
proof (cases "scan (c_str expr) 0 0")
  case (Inl e')
  then have "e = e'" using tokenize_scan(1)[OF Inl, of L s] assms by simp
  then show ?thesis using scan_errors[OF Inl] by blast
next
  case (Inr d)
  show ?thesis
  proof (cases "0 < d")
    case True
    then show ?thesis using tokenize_scan(2)[OF Inr True, of L s] assms by simp
  next
    case False
    then have "d = 0" by simp
    then show ?thesis using tokenize_scan(3)[of expr L s] Inr assms by auto
  qed
qed

lemma tokenize_scan_Inl:
  assumes "tokenize L expr s = Inl e" "e \<noteq> UnmatchedOpenParen"
  shows "scan (c_str expr) 0 0 = Inl e"
proof (cases "scan (c_str expr) 0 0")
  case (Inl e')
  then show ?thesis using tokenize_scan(1)[OF Inl, of L s] assms by simp
next
  case (Inr d)
  show ?thesis
  proof (cases "0 < d")
    case True
    then show ?thesis using tokenize_scan(2)[OF Inr True, of L s] assms by simp
  next
    case False
    then have "d = 0" by simp
    then show ?thesis using tokenize_scan(3)[of expr L s] Inr assms by auto
  qed
qed

lemma prefix_accepted:
  assumes "scan (take i cs) 0 0 = Inr d" "i \<le> length cs"
  shows "(\<forall>c \<in> set (take i cs). recognized c) \<and> (\<forall>j \<le> i. 0 \<le> paren_depth (take j cs))
         \<and> int d = paren_depth (take i cs)"
proof -
  from assms(1)[unfolded scan_Inr] have a: "\<forall>c \<in> set (take i cs). recognized c"
    "\<forall>j \<le> length (take i cs). 0 \<le> paren_depth (take j (take i cs))"
    "int d = paren_depth (take i cs)" by simp_all
  have "0 \<le> paren_depth (take j cs)" if "j \<le> i" for j
    using a(2)[rule_format, of j] that assms(2) by (simp add: min_absorb1)
  then show ?thesis using a(1,3) by blast
qed

lemma tokenize_unrecognized:
  assumes "tokenize L expr s = Inl (UnrecognizedCharacter i c)"
  shows "i < length (c_str expr) \<and> expr ! i = c \<and> \<not> recognized c
         \<and> (\<forall>x \<in> set (take i (c_str expr)). recognized x)
         \<and> (\<forall>j \<le> i. 0 \<le> paren_depth (take j (c_str expr)))"
proof -
  have sc: "scan (c_str expr) 0 0 = Inl (UnrecognizedCharacter i c)"
    by (rule tokenize_scan_Inl[OF assms]) simp
  from scan_unrecognized[OF sc] have a: "i < length (c_str expr)" "c_str expr ! i = c" "\<not> recognized c"
    by simp_all
  from scan_unrecognized_prefix[OF sc] obtain d' where "scan (take i (c_str expr)) 0 0 = Inr d'"
    by auto
  from prefix_accepted[OF this] a(1) show ?thesis using a c_str_nth[OF a(1)] by simp
qed

lemma tokenize_close:
  assumes "tokenize L expr s = Inl UnmatchedCloseParen"
  shows "\<exists>i < length (c_str expr). expr ! i = CHR '')'' \<and> paren_depth (take i (c_str expr)) = 0
           \<and> paren_depth (take (Suc i) (c_str expr)) < 0
           \<and> (\<forall>x \<in> set (take i (c_str expr)). recognized x)
           \<and> (\<forall>j \<le> i. 0 \<le> paren_depth (take j (c_str expr)))"
proof -
  have sc: "scan (c_str expr) 0 0 = Inl UnmatchedCloseParen"
    by (rule tokenize_scan_Inl[OF assms]) simp
  from scan_close_prefix[OF sc] obtain i where i: "i < length (c_str expr)"
    "c_str expr ! i = CHR '')''" "scan (take i (c_str expr)) 0 0 = Inr 0" by blast
  from prefix_accepted[OF i(3)] i(1) have p: "\<forall>x \<in> set (take i (c_str expr)). recognized x"
    "\<forall>j \<le> i. 0 \<le> paren_depth (take j (c_str expr))" "paren_depth (take i (c_str expr)) = 0"
    by simp_all
  have "take (Suc i) (c_str expr) = take i (c_str expr) @ [CHR '')'']"
    using i(1,2) by (simp add: take_Suc_conv_app_nth)
  then have "paren_depth (take (Suc i) (c_str expr)) < 0" using p(3) by (simp add: paren_depth_def)
  then show ?thesis using i(1) p c_str_nth[OF i(1)] i(2) by auto
qed

lemma tokenize_open:
  assumes "tokenize L expr s = Inl UnmatchedOpenParen"
  shows "0 < paren_depth (c_str expr) \<and> (\<forall>x \<in> set (c_str expr). recognized x)
         \<and> (\<forall>j \<le> length (c_str expr). 0 \<le> paren_depth (take j (c_str expr)))"
proof (cases "scan (c_str expr) 0 0")
  case (Inl e')
  then have "e' = UnmatchedOpenParen" using tokenize_scan(1)[OF Inl, of L s] assms by simp
  then show ?thesis using scan_errors[OF Inl] by auto
next
  case (Inr d)
  have "0 < d"
  proof (rule ccontr)
    assume "\<not> 0 < d"
    then have "d = 0" by simp
    then show False using tokenize_scan(3)[of expr L s] Inr assms by auto
  qed
  moreover from Inr[unfolded scan_Inr] have "\<forall>c \<in> set (c_str expr). recognized c"
    "\<forall>i \<le> length (c_str expr). 0 \<le> paren_depth (take i (c_str expr))"
    "int d = paren_depth (c_str expr)" by simp_all
  ultimately show ?thesis by simp
qed

text \<open>
  Claim C4.  \<open>tokenize\<close> fails exactly when the input (up to its terminating NUL) contains
  a character that is neither a blank, a digit or point, a letter nor one of \<open>( ) , + - * / ^\<close>,
  or has a prefix with more closing than opening parentheses, or has more opening than
  closing parentheses in all.  The error is one of the three kinds.  \<open>UnrecognizedCharacter\<close>
  carries the offset of an unrecognized character of the input and that character;
  \<open>UnmatchedCloseParen\<close> is raised at a closing parenthesis that is read when the count is 0;
  in both cases everything before that character is recognized and no prefix before it has
  more closing than opening parentheses, so the error is raised at the first offending
  character.  \<open>UnmatchedOpenParen\<close> is raised at the end of an input that is otherwise
  accepted and leaves a positive count.  A failure is an exit: the result is the error and
  carries no token sequence.  The three examples fail as stated.
\<close>

theorem tokenize_fails_exactly:
  "((\<exists>e. tokenize L expr s = Inl e) =
      ((\<exists>c \<in> set (c_str expr). \<not> recognized c)
       \<or> (\<exists>i \<le> length (c_str expr). paren_depth (take i (c_str expr)) < 0)
       \<or> 0 < paren_depth (c_str expr)))
   \<and> (\<forall>e. tokenize L expr s = Inl e
        \<longrightarrow> (\<exists>i c. e = UnrecognizedCharacter i c) \<or> e = UnmatchedCloseParen \<or> e = UnmatchedOpenParen)
   \<and> (\<forall>i c. tokenize L expr s = Inl (UnrecognizedCharacter i c)
        \<longrightarrow> i < length (c_str expr) \<and> expr ! i = c \<and> \<not> recognized c
            \<and> (\<forall>x \<in> set (take i (c_str expr)). recognized x)
            \<and> (\<forall>j \<le> i. 0 \<le> paren_depth (take j (c_str expr))))
   \<and> (tokenize L expr s = Inl UnmatchedCloseParen
        \<longrightarrow> (\<exists>i < length (c_str expr). expr ! i = CHR '')'' \<and> paren_depth (take i (c_str expr)) = 0
               \<and> paren_depth (take (Suc i) (c_str expr)) < 0
               \<and> (\<forall>x \<in> set (take i (c_str expr)). recognized x)
               \<and> (\<forall>j \<le> i. 0 \<le> paren_depth (take j (c_str expr)))))
   \<and> (tokenize L expr s = Inl UnmatchedOpenParen
        \<longrightarrow> 0 < paren_depth (c_str expr) \<and> (\<forall>x \<in> set (c_str expr). recognized x)
            \<and> (\<forall>j \<le> length (c_str expr). 0 \<le> paren_depth (take j (c_str expr))))
   \<and> tokenize L ''(1+2'' init_state = Inl UnmatchedOpenParen
   \<and> tokenize L ''1+2)'' init_state = Inl UnmatchedCloseParen
   \<and> tokenize L ''1@2'' init_state = Inl (UnrecognizedCharacter 1 (CHR ''@''))"
proof -
  have 1: "(\<exists>e. tokenize L expr s = Inl e) =
      ((\<exists>c \<in> set (c_str expr). \<not> recognized c)
       \<or> (\<exists>i \<le> length (c_str expr). paren_depth (take i (c_str expr)) < 0)
       \<or> 0 < paren_depth (c_str expr))"
    by (rule tokenize_fails_iff)
  have 2: "\<forall>e. tokenize L expr s = Inl e
        \<longrightarrow> (\<exists>i c. e = UnrecognizedCharacter i c) \<or> e = UnmatchedCloseParen \<or> e = UnmatchedOpenParen"
    using tokenize_error_kinds[of L expr s] by blast
  have 3: "\<forall>i c. tokenize L expr s = Inl (UnrecognizedCharacter i c)
        \<longrightarrow> i < length (c_str expr) \<and> expr ! i = c \<and> \<not> recognized c
            \<and> (\<forall>x \<in> set (take i (c_str expr)). recognized x)
            \<and> (\<forall>j \<le> i. 0 \<le> paren_depth (take j (c_str expr)))"
    using tokenize_unrecognized[of L expr s] by blast
  have 4: "tokenize L expr s = Inl UnmatchedCloseParen
        \<longrightarrow> (\<exists>i < length (c_str expr). expr ! i = CHR '')'' \<and> paren_depth (take i (c_str expr)) = 0
               \<and> paren_depth (take (Suc i) (c_str expr)) < 0
               \<and> (\<forall>x \<in> set (take i (c_str expr)). recognized x)
               \<and> (\<forall>j \<le> i. 0 \<le> paren_depth (take j (c_str expr))))"
    using tokenize_close[of L expr s] by blast
  have 5: "tokenize L expr s = Inl UnmatchedOpenParen
        \<longrightarrow> 0 < paren_depth (c_str expr) \<and> (\<forall>x \<in> set (c_str expr). recognized x)
            \<and> (\<forall>j \<le> length (c_str expr). 0 \<le> paren_depth (take j (c_str expr)))"
    using tokenize_open[of L expr s] by blast
  show ?thesis by (intro conjI 1 2 3 4 5 tokenize_errors)
qed

theorem tokenize_fails_exactly_witness:
  "tokenize exact_libm ''1@2'' init_state = Inl (UnrecognizedCharacter 1 (CHR ''@''))
   \<and> 1 < length (c_str ''1@2'') \<and> ''1@2'' ! 1 = CHR ''@'' \<and> \<not> recognized (CHR ''@'')
   \<and> tokenize exact_libm ''1+2)'' init_state = Inl UnmatchedCloseParen
   \<and> (\<exists>i. i < length (c_str ''1+2)'') \<and> ''1+2)'' ! i = CHR '')''
          \<and> paren_depth (take i (c_str ''1+2)'')) = 0)
   \<and> tokenize exact_libm ''(1+2'' init_state = Inl UnmatchedOpenParen
   \<and> 0 < paren_depth (c_str ''(1+2'')"
proof -
  note t1 = tokenize_fails_exactly[of exact_libm "''1@2''" init_state]
  note t2 = tokenize_fails_exactly[of exact_libm "''1+2)''" init_state]
  note t3 = tokenize_fails_exactly[of exact_libm "''(1+2''" init_state]
  from t1 have e1: "tokenize exact_libm ''1@2'' init_state = Inl (UnrecognizedCharacter 1 (CHR ''@''))"
    by (elim conjE)
  from t1 have e2: "tokenize exact_libm ''1+2)'' init_state = Inl UnmatchedCloseParen"
    by (elim conjE)
  from t1 have e3: "tokenize exact_libm ''(1+2'' init_state = Inl UnmatchedOpenParen"
    by (elim conjE)
  from t1 e1 have a: "1 < length (c_str ''1@2'') \<and> ''1@2'' ! 1 = CHR ''@'' \<and> \<not> recognized (CHR ''@'')"
    by blast
  from t2 e2 have d: "\<exists>i. i < length (c_str ''1+2)'') \<and> ''1+2)'' ! i = CHR '')''
      \<and> paren_depth (take i (c_str ''1+2)'')) = 0" by blast
  from t3 e3 have f: "0 < paren_depth (c_str ''(1+2'')" by blast
  show ?thesis using e1 e2 e3 a d f by blast
qed

section \<open>The token sequence of an input\<close>

text \<open>
  The reference for the output of \<open>tokenize\<close>.  \<open>lexemes\<close> is the sequence of numbers,
  identifiers and operators of the input as they are cut from it: a number from a digit or
  point and the digits and points after it that the scratch buffer holds (15 characters), an
  identifier from a letter and the letters after it (31 characters).  \<open>implicit_mul prev t\<close>
  says when a multiplication sign goes between the tokens \<open>prev\<close> and \<open>t\<close>: before a number
  or an identifier that follows a number, an identifier or a closing parenthesis, and before
  an opening parenthesis that follows a number or a closing parenthesis.  \<open>token_seq\<close> is the
  sequence between the two wrapper parentheses with these signs inserted.
\<close>

function lexemes :: "'r libm \<Rightarrow> string \<Rightarrow> 'r Tok list" where
  "lexemes L [] = []"
| "lexemes L (c # cs) =
     (if c = CHR 0x00 then []
      else if c = CHR '' '' then lexemes L cs
      else if IS_FLOAT c then
        TokNum (c_strtod L (c # float_run 1 cs)) # lexemes L (drop (length (float_run 1 cs)) cs)
      else if IS_ALPHA c then
        TokIdent (c # alpha_run 1 cs) # lexemes L (drop (length (alpha_run 1 cs)) cs)
      else if is_op_char c then TokOp c # lexemes L cs
      else [])"
  by pat_completeness auto
termination
  by (relation "measure (\<lambda>(L, cs). length cs)") auto

fun is_number :: "'r Tok \<Rightarrow> bool" where
  "is_number (TokNum x) = True"
| "is_number t = False"

fun is_identifier :: "'r Tok \<Rightarrow> bool" where
  "is_identifier (TokIdent n) = True"
| "is_identifier t = False"

definition implicit_mul :: "'r Tok \<Rightarrow> 'r Tok \<Rightarrow> bool" where
  "implicit_mul prev t =
     (((is_number t \<or> is_identifier t)
         \<and> (is_number prev \<or> is_identifier prev \<or> prev = TokOp (CHR '')'')))
      \<or> (t = TokOp (CHR ''('') \<and> (is_number prev \<or> prev = TokOp (CHR '')''))))"

fun with_mul :: "'r Tok \<Rightarrow> 'r Tok list \<Rightarrow> 'r Tok list" where
  "with_mul prev [] = []"
| "with_mul prev (t # ts) =
     (if implicit_mul prev t then [TokOp (CHR ''*''), t] else [t]) @ with_mul t ts"

definition token_seq :: "'r libm \<Rightarrow> string \<Rightarrow> 'r Tok list" where
  "token_seq L expr =
     TokOp (CHR ''('') # with_mul (TokOp (CHR ''('')) (lexemes L expr) @ [TokOp (CHR '')'')]"

lemma implicit_mul_code:
  "implicit_mul prev (TokNum x) = mul_before_term prev"
  "implicit_mul prev (TokIdent n) = mul_before_term prev"
  "implicit_mul prev (TokOp c) = (c = CHR ''('' \<and> mul_before_paren prev)"
  by (cases prev; auto simp: implicit_mul_def)+

lemma take_take_app: "take n (take n xs @ ys) = take n (xs @ ys)"
  by (cases "n \<le> length xs") (simp_all add: min_def)

lemma push_ideal:
  assumes "tinv s" "toks s = take TOKS_CAP I"
  shows "tinv (push_tok t s)" "toks (push_tok t s) = take TOKS_CAP (I @ [t])"
proof -
  show "tinv (push_tok t s)" by (rule push_tok_tinv[OF assms(1)])
  show "toks (push_tok t s) = take TOKS_CAP (I @ [t])"
    unfolding push_tok_toks[OF assms(1)] assms(2) by (rule take_take_app)
qed

lemma last_tok_ideal:
  assumes "tinv s" "toks s = I" "I \<noteq> []"
  shows "last_tok s = last I"
proof -
  have sz: "toks_size s = length I" "length I \<le> TOKS_CAP" using assms by (simp_all add: tinv_def)
  obtain a I' where I: "I = a # I'" using assms(3) by (cases I) auto
  have "length I - 1 < length I" "length I - 1 < TOKS_CAP" using sz(2) unfolding I by simp_all
  then have "tok_at s (length I - 1) = Inr (I ! (length I - 1))"
    using assms(2) by (simp add: tok_at_def)
  then show ?thesis using sz assms(3) by (simp add: last_tok_def last_conv_nth)
qed

lemma step_ideal:
  assumes "tinv s" "toks s = take TOKS_CAP I" "I \<noteq> []"
  shows "tinv (push_tok t (if P (last_tok s) then push_tok m s else s))"
    and "toks (push_tok t (if P (last_tok s) then push_tok m s else s))
           = take TOKS_CAP (I @ (if P (last I) then [m, t] else [t]))"
proof -
  show "tinv (push_tok t (if P (last_tok s) then push_tok m s else s))"
    using assms(1) by (simp add: push_tok_tinv)
  show "toks (push_tok t (if P (last_tok s) then push_tok m s else s))
           = take TOKS_CAP (I @ (if P (last I) then [m, t] else [t]))"
  proof (cases "length I \<le> TOKS_CAP")
    case True
    then have tI: "toks s = I" using assms(2) by simp
    have l: "last_tok s = last I" by (rule last_tok_ideal[OF assms(1) tI assms(3)])
    show ?thesis
    proof (cases "P (last I)")
      case True
      have "toks (push_tok t (push_tok m s)) = take TOKS_CAP ((I @ [m]) @ [t])"
        by (rule push_ideal(2)[OF push_ideal(1)[OF assms(1,2)] push_ideal(2)[OF assms(1,2)]])
      then show ?thesis using True l by simp
    next
      case False
      then show ?thesis using l push_ideal(2)[OF assms(1,2), of t] by simp
    qed
  next
    case False
    then have le: "TOKS_CAP \<le> length I" by simp
    then have "toks_size s = TOKS_CAP" using assms(1,2) by (simp add: tinv_def)
    then have f: "push_tok x s = s" for x by (rule push_tok_full)
    have e: "push_tok t (if P (last_tok s) then push_tok m s else s) = s" by (simp add: f)
    have "take TOKS_CAP (I @ (if P (last I) then [m, t] else [t])) = take TOKS_CAP I"
      using le by simp
    then show ?thesis unfolding e using assms(2) by simp
  qed
qed

lemma tokenize_loop_ideal:
  assumes "tinv s" "toks s = take TOKS_CAP I" "I \<noteq> []"
    and "tokenize_loop L cs pos depth s = Inr (d, s')"
  shows "tinv s' \<and> toks s' = take TOKS_CAP (I @ with_mul (last I) (lexemes L cs))"
  using assms
proof (induction L cs pos depth s arbitrary: I rule: tokenize_loop.induct)
  case (1 L pos depth s)
  then show ?case by simp
next
  case (2 L c cs pos depth s)
  consider (nul) "c = CHR 0x00"
    | (sp) "c \<noteq> CHR 0x00" "c = CHR '' ''"
    | (fl) "c \<noteq> CHR 0x00" "c \<noteq> CHR '' ''" "IS_FLOAT c"
    | (al) "c \<noteq> CHR 0x00" "c \<noteq> CHR '' ''" "\<not> IS_FLOAT c" "IS_ALPHA c"
    | (ot) "c \<noteq> CHR 0x00" "c \<noteq> CHR '' ''" "\<not> IS_FLOAT c" "\<not> IS_ALPHA c"
    by blast
  then show ?case
  proof cases
    case nul
    then show ?thesis using "2.prems" by simp
  next
    case sp
    have r: "tokenize_loop L cs (pos + 1) depth s = Inr (d, s')" using "2.prems"(4) sp by simp
    from "2.IH"(1)[OF sp "2.prems"(1,2,3) r] show ?thesis using sp by simp
  next
    case fl
    let ?buf = "c # float_run 1 cs"
    let ?t = "TokNum (c_strtod L ?buf)"
    let ?s1 = "if mul_before_term (last_tok s) then push_tok (TokOp (CHR ''*'')) s else s"
    let ?I = "I @ (if mul_before_term (last I) then [TokOp (CHR ''*''), ?t] else [?t])"
    have r: "tokenize_loop L (drop (length ?buf - 1) cs) (pos + length ?buf) depth (push_tok ?t ?s1)
               = Inr (d, s')"
      using "2.prems"(4) fl by (simp add: Let_def)
    note st = step_ideal[OF "2.prems"(1,2,3), where P = mul_before_term and m = "TokOp (CHR ''*'')" and t = ?t]
    have ne: "?I \<noteq> []" by simp
    from "2.IH"(2)[OF fl refl refl refl st(1) st(2) ne r]
    have "tinv s' \<and> toks s' = take TOKS_CAP (?I @ with_mul (last ?I) (lexemes L (drop (length ?buf - 1) cs)))"
      by simp
    moreover have "last ?I = ?t" by simp
    ultimately show ?thesis using fl by (simp add: implicit_mul_code)
  next
    case al
    let ?buf = "c # alpha_run 1 cs"
    let ?t = "TokIdent ?buf :: 'a Tok"
    let ?s1 = "if mul_before_term (last_tok s) then push_tok (TokOp (CHR ''*'')) s else s"
    let ?I = "I @ (if mul_before_term (last I) then [TokOp (CHR ''*''), ?t] else [?t])"
    have r: "tokenize_loop L (drop (length ?buf - 1) cs) (pos + length ?buf) depth (push_tok ?t ?s1)
               = Inr (d, s')"
      using "2.prems"(4) al by (simp add: Let_def)
    note st = step_ideal[OF "2.prems"(1,2,3), where P = mul_before_term and m = "TokOp (CHR ''*'')" and t = ?t]
    have ne: "?I \<noteq> []" by simp
    from "2.IH"(3)[OF al refl refl st(1) st(2) ne r]
    have "tinv s' \<and> toks s' = take TOKS_CAP (?I @ with_mul (last ?I) (lexemes L (drop (length ?buf - 1) cs)))"
      by simp
    moreover have "last ?I = ?t" by simp
    ultimately show ?thesis using al by (simp add: implicit_mul_code)
  next
    case ot
    have nc: "\<not> (c = CHR '')'' \<and> depth = 0)" using "2.prems"(4) ot by (auto split: if_splits)
    have op: "is_op_char c" using "2.prems"(4) ot nc by (auto simp: Let_def split: if_splits)
    let ?d = "if c = CHR ''('' then depth + 1 else if c = CHR '')'' then depth - 1 else depth"
    let ?P = "\<lambda>p :: 'a Tok. c = CHR ''('' \<and> mul_before_paren p"
    let ?t = "TokOp c :: 'a Tok"
    let ?s1 = "if c = CHR ''('' \<and> mul_before_paren (last_tok s) then push_tok (TokOp (CHR ''*'')) s else s"
    let ?I = "I @ (if ?P (last I) then [TokOp (CHR ''*''), ?t] else [?t])"
    have r: "tokenize_loop L cs (pos + 1) ?d (push_tok ?t ?s1) = Inr (d, s')"
      using "2.prems"(4) ot nc op by (simp add: Let_def)
    note st = step_ideal[OF "2.prems"(1,2,3), where P = ?P and m = "TokOp (CHR ''*'')" and t = ?t]
    have ne: "?I \<noteq> []" by simp
    from "2.IH"(4)[OF ot nc refl op refl st(1) st(2) ne r]
    have "tinv s' \<and> toks s' = take TOKS_CAP (?I @ with_mul (last ?I) (lexemes L cs))"
      by simp
    moreover have "last ?I = ?t" by simp
    ultimately show ?thesis using ot op by (simp add: implicit_mul_code)
  qed
qed

lemma tokenize_token_seq:
  assumes "tokenize L expr init_state = Inr s'"
  shows "toks s' = take TOKS_CAP (token_seq L expr)" "toks_size s' = length (toks s')"
    "live s' = take TOKS_CAP (token_seq L expr)"
proof -
  let ?s0 = "push_tok (TokOp (CHR ''('')) init_state :: 'a state"
  have i0: "tinv ?s0" by (rule push_tok_tinv[OF tinv_init])
  have t0: "toks ?s0 = take TOKS_CAP [TokOp (CHR ''('')]"
    by (simp add: push_tok_def put_tok_def init_state_def TOKS_CAP_def)
  from assms obtain d s1 where l: "tokenize_loop L expr 0 0 ?s0 = Inr (d, s1)"
    and f: "s' = push_tok (TokOp (CHR '')'')) s1"
    by (auto simp: tokenize_def split: sum.splits prod.splits if_splits)
  have ne: "[TokOp (CHR ''('') :: 'a Tok] \<noteq> []" by simp
  from tokenize_loop_ideal[OF i0 t0 ne l]
  have a: "tinv s1" "toks s1 = take TOKS_CAP ([TokOp (CHR ''('')] @ with_mul (TokOp (CHR ''('')) (lexemes L expr))"
    by simp_all
  from push_ideal[OF a, of "TokOp (CHR '')'')"] f
  have b: "tinv s'" "toks s' = take TOKS_CAP (token_seq L expr)" by (simp_all add: token_seq_def)
  show "toks s' = take TOKS_CAP (token_seq L expr)" by (rule b(2))
  show "toks_size s' = length (toks s')" using b(1) by (simp add: tinv_def)
  show "live s' = take TOKS_CAP (token_seq L expr)" using tinv_live[OF b(1)] b(2) by simp
qed

section \<open>Implicit multiplication\<close>

definition var_env :: "'r libm \<Rightarrow> 'r Var list \<Rightarrow> 'r env" where
  "var_env L vs = \<lparr>env_libm = L, env_functions = [], env_vars = vs\<rparr>"

lemma tokens_implicit:
  "tokenize L ''2x'' init_state =
     Inr \<lparr>toks = [TokOp (CHR ''(''), TokNum (c_strtod L ''2''), TokOp (CHR ''*''), TokIdent ''x'',
                  TokOp (CHR '')'')], toks_size = 5\<rparr>"
  "tokenize L ''x y'' init_state =
     Inr \<lparr>toks = [TokOp (CHR ''(''), TokIdent ''x'', TokOp (CHR ''*''), TokIdent ''y'',
                  TokOp (CHR '')'')], toks_size = 5\<rparr>"
  "tokenize L ''(a)(b)'' init_state =
     Inr \<lparr>toks = [TokOp (CHR ''(''), TokOp (CHR ''(''), TokIdent ''a'', TokOp (CHR '')''),
                  TokOp (CHR ''*''), TokOp (CHR ''(''), TokIdent ''b'', TokOp (CHR '')''),
                  TokOp (CHR '')'')], toks_size = 9\<rparr>"
  "tokenize L ''2(3)'' init_state =
     Inr \<lparr>toks = [TokOp (CHR ''(''), TokNum (c_strtod L ''2''), TokOp (CHR ''*''), TokOp (CHR ''(''),
                  TokNum (c_strtod L ''3''), TokOp (CHR '')''), TokOp (CHR '')'')], toks_size = 7\<rparr>"
  by (simp_all add: tokenize_defs Let_def cong: run_congs)

lemma evaluate_implicit:
  "bnd (evaluate 50 (var_env L [\<lparr>var_name = ''x'', var_val = vx\<rparr>, \<lparr>var_name = ''y'', var_val = vy\<rparr>]) ''2x'')
       (\<lambda>(res, s). ret res) = Some (Inr (c_mul L (c_strtod L ''2'') vx))"
  "bnd (evaluate 50 (var_env L [\<lparr>var_name = ''x'', var_val = vx\<rparr>, \<lparr>var_name = ''y'', var_val = vy\<rparr>]) ''x y'')
       (\<lambda>(res, s). ret res) = Some (Inr (c_mul L vx vy))"
  "bnd (evaluate 50 (var_env L [\<lparr>var_name = ''a'', var_val = va\<rparr>, \<lparr>var_name = ''b'', var_val = vb\<rparr>]) ''(a)(b)'')
       (\<lambda>(res, s). ret res) = Some (Inr (c_mul L va vb))"
  "bnd (evaluate 50 (var_env L []) ''2(3)'') (\<lambda>(res, s). ret res)
     = Some (Inr (c_mul L (c_strtod L ''2'') (c_strtod L ''3'')))"
  by (simp_all add: var_env_def evaluate_def tokenize_defs eval_defs cong: run_congs)

lemma run_implicit:
  "run 50 L ''2(3+4)'' =
     Some (Inr (c_mul L (c_strtod L ''2'') (c_add L (c_strtod L ''3'') (c_strtod L ''4''))))"
  "run 50 L ''2pi'' = Some (Inr (c_mul L (c_strtod L ''2'') (M_PI L)))"
  by (simp_all add: run_defs cong: run_congs)

lemma run_implicit_exact:
  "run 50 exact_libm ''2(3+4)'' = Some (Inr 14)"
  "run 50 exact_libm ''2pi'' = Some (Inr (2 * pi))"
  by (simp_all add: run_implicit exact_defs)

lemma tokens_ident_paren:
  "tokenize L ''pi(3)'' init_state =
     Inr \<lparr>toks = [TokOp (CHR ''(''), TokIdent ''pi'', TokOp (CHR ''(''), TokNum (c_strtod L ''3''),
                  TokOp (CHR '')''), TokOp (CHR '')'')], toks_size = 6\<rparr>"
  "run 50 L ''pi(3)'' = Some (Inl (UnknownFunction ''pi''))"
  by (simp_all add: run_defs cong: run_congs)

text \<open>
  Claim C3, as amended: before an opening parenthesis the multiplication sign is inserted
  after a number or a closing parenthesis only, not after an identifier
  (see the counterexample below).

  Whenever \<open>tokenize\<close> returns, the buffer holds the first 65536 tokens of \<open>token_seq\<close>:
  the tokens of the input between the two wrappers, with a multiplication sign inserted
  exactly where \<open>implicit_mul\<close> says, that is before a number or an identifier when the
  token before is a number, an identifier or a closing parenthesis, and before an opening
  parenthesis when the token before is a number or a closing parenthesis.  The four inputs
  \<open>2x\<close>, \<open>x y\<close>, \<open>(a)(b)\<close> and \<open>2(3)\<close> are tokenized with the sign and evaluate to the
  product (with the variables registered); \<open>2(3+4)\<close> is \<open>2 * (3 + 4)\<close>, 14 in exact
  arithmetic, and \<open>2pi\<close> is \<open>2 * pi\<close>.
\<close>

theorem implicit_multiplication:
  "(\<forall>s'. tokenize L expr init_state = Inr s'
       \<longrightarrow> live s' = take TOKS_CAP (token_seq L expr) \<and> toks_size s' = length (toks s'))
   \<and> (\<forall>prev x. implicit_mul prev (TokNum x :: 'r Tok)
         = (is_number prev \<or> is_identifier prev \<or> prev = TokOp (CHR '')'')))
   \<and> (\<forall>prev n. implicit_mul prev (TokIdent n :: 'r Tok)
         = (is_number prev \<or> is_identifier prev \<or> prev = TokOp (CHR '')'')))
   \<and> (\<forall>prev c. implicit_mul prev (TokOp c :: 'r Tok)
         = (c = CHR ''('' \<and> (is_number prev \<or> prev = TokOp (CHR '')''))))
   \<and> tokenize L ''2x'' init_state =
       Inr \<lparr>toks = [TokOp (CHR ''(''), TokNum (c_strtod L ''2''), TokOp (CHR ''*''), TokIdent ''x'',
                    TokOp (CHR '')'')], toks_size = 5\<rparr>
   \<and> tokenize L ''x y'' init_state =
       Inr \<lparr>toks = [TokOp (CHR ''(''), TokIdent ''x'', TokOp (CHR ''*''), TokIdent ''y'',
                    TokOp (CHR '')'')], toks_size = 5\<rparr>
   \<and> tokenize L ''(a)(b)'' init_state =
       Inr \<lparr>toks = [TokOp (CHR ''(''), TokOp (CHR ''(''), TokIdent ''a'', TokOp (CHR '')''),
                    TokOp (CHR ''*''), TokOp (CHR ''(''), TokIdent ''b'', TokOp (CHR '')''),
                    TokOp (CHR '')'')], toks_size = 9\<rparr>
   \<and> tokenize L ''2(3)'' init_state =
       Inr \<lparr>toks = [TokOp (CHR ''(''), TokNum (c_strtod L ''2''), TokOp (CHR ''*''), TokOp (CHR ''(''),
                    TokNum (c_strtod L ''3''), TokOp (CHR '')''), TokOp (CHR '')'')], toks_size = 7\<rparr>
   \<and> bnd (evaluate 50 (var_env L [\<lparr>var_name = ''x'', var_val = vx\<rparr>, \<lparr>var_name = ''y'', var_val = vy\<rparr>]) ''2x'')
         (\<lambda>(res, s). ret res) = Some (Inr (c_mul L (c_strtod L ''2'') vx))
   \<and> bnd (evaluate 50 (var_env L [\<lparr>var_name = ''x'', var_val = vx\<rparr>, \<lparr>var_name = ''y'', var_val = vy\<rparr>]) ''x y'')
         (\<lambda>(res, s). ret res) = Some (Inr (c_mul L vx vy))
   \<and> bnd (evaluate 50 (var_env L [\<lparr>var_name = ''a'', var_val = va\<rparr>, \<lparr>var_name = ''b'', var_val = vb\<rparr>]) ''(a)(b)'')
         (\<lambda>(res, s). ret res) = Some (Inr (c_mul L va vb))
   \<and> bnd (evaluate 50 (var_env L []) ''2(3)'') (\<lambda>(res, s). ret res)
         = Some (Inr (c_mul L (c_strtod L ''2'') (c_strtod L ''3'')))
   \<and> run 50 L ''2(3+4)'' =
       Some (Inr (c_mul L (c_strtod L ''2'') (c_add L (c_strtod L ''3'') (c_strtod L ''4''))))
   \<and> run 50 L ''2pi'' = Some (Inr (c_mul L (c_strtod L ''2'') (M_PI L)))
   \<and> run 50 exact_libm ''2(3+4)'' = Some (Inr 14)
   \<and> run 50 exact_libm ''2pi'' = Some (Inr (2 * pi))"
proof -
  have 1: "\<forall>s'. tokenize L expr init_state = Inr s'
       \<longrightarrow> live s' = take TOKS_CAP (token_seq L expr) \<and> toks_size s' = length (toks s')"
    using tokenize_token_seq[of L expr] by blast
  have 2: "\<forall>prev x. implicit_mul prev (TokNum x :: 'r Tok)
         = (is_number prev \<or> is_identifier prev \<or> prev = TokOp (CHR '')''))"
    by (simp add: implicit_mul_def)
  have 3: "\<forall>prev n. implicit_mul prev (TokIdent n :: 'r Tok)
         = (is_number prev \<or> is_identifier prev \<or> prev = TokOp (CHR '')''))"
    by (simp add: implicit_mul_def)
  have 4: "\<forall>prev c. implicit_mul prev (TokOp c :: 'r Tok)
         = (c = CHR ''('' \<and> (is_number prev \<or> prev = TokOp (CHR '')'')))"
    by (simp add: implicit_mul_def)
  show ?thesis
    by (intro conjI 1 2 3 4 tokens_implicit evaluate_implicit run_implicit run_implicit_exact)
qed

text \<open>
  The claim as stated fails for an opening parenthesis after an identifier: no sign is
  inserted, and the identifier is read as the name of a function.  \<open>pi\<close> is a registered
  variable, and \<open>pi(3)\<close> is not \<open>pi * 3\<close> but a call of the unknown function \<open>pi\<close>.
\<close>

theorem identifier_paren_counterexample:
  "tokenize exact_libm ''pi(3)'' init_state =
     Inr \<lparr>toks = [TokOp (CHR ''(''), TokIdent ''pi'', TokOp (CHR ''(''), TokNum 3,
                  TokOp (CHR '')''), TokOp (CHR '')'')], toks_size = 6\<rparr>
   \<and> run 50 exact_libm ''pi(3)'' = Some (Inl (UnknownFunction ''pi''))"
  using tokens_ident_paren[of exact_libm] by (simp add: exact_libm_def exact_strtod_values)

theorem implicit_multiplication_witness:
  "tokenize exact_libm ''2x'' init_state =
       Inr \<lparr>toks = [TokOp (CHR ''(''), TokNum 2, TokOp (CHR ''*''), TokIdent ''x'',
                    TokOp (CHR '')'')], toks_size = 5\<rparr>
   \<and> take TOKS_CAP (token_seq exact_libm ''2x'')
       = [TokOp (CHR ''(''), TokNum 2, TokOp (CHR ''*''), TokIdent ''x'', TokOp (CHR '')'')]"
proof -
  let ?s = "\<lparr>toks = [TokOp (CHR ''(''), TokNum 2, TokOp (CHR ''*''), TokIdent ''x'',
                    TokOp (CHR '')'')], toks_size = 5\<rparr> :: real state"
  note th = implicit_multiplication[of exact_libm "''2x''" 0 0 0 0, where 'r = real]
  note th5 = th[THEN conjunct2, THEN conjunct2, THEN conjunct2, THEN conjunct2, THEN conjunct1]
  from th5 have t: "tokenize exact_libm ''2x'' init_state =
       Inr \<lparr>toks = [TokOp (CHR ''(''), TokNum (c_strtod exact_libm ''2''), TokOp (CHR ''*''), TokIdent ''x'',
                    TokOp (CHR '')'')], toks_size = 5\<rparr>" .
  then have t': "tokenize exact_libm ''2x'' init_state = Inr ?s"
    by (simp add: exact_libm_def exact_strtod_values)
  from th[THEN conjunct1] t' have "live ?s = take TOKS_CAP (token_seq exact_libm ''2x'')" by blast
  then show ?thesis using t' by (simp add: live_def)
qed

section \<open>Runs of digits and points\<close>

lemma float_run_app:
  "\<forall>c \<in> set p. IS_FLOAT c \<Longrightarrow> i + length p \<le> 15
     \<Longrightarrow> float_run i (p @ rest) = p @ float_run (i + length p) rest"
  by (induction p arbitrary: i) auto

lemma float_run_stop: "rest = [] \<or> \<not> IS_FLOAT (hd rest) \<or> 15 \<le> i \<Longrightarrow> float_run i rest = []"
  by (cases rest) auto

lemma lexemes_float:
  "IS_FLOAT c \<Longrightarrow>
     lexemes L (c # cs) = TokNum (c_strtod L (c # float_run 1 cs)) # lexemes L (drop (length (float_run 1 cs)) cs)"
  using class_plain[of c] by simp

lemma lexemes_short_run:
  assumes "r \<noteq> []" "\<forall>c \<in> set r. IS_FLOAT c" "rest = [] \<or> \<not> IS_FLOAT (hd rest)" "length r \<le> 15"
  shows "lexemes L (r @ rest) = TokNum (c_strtod L r) # lexemes L rest"
proof -
  obtain c r' where r: "r = c # r'" using assms(1) by (cases r) auto
  have c: "IS_FLOAT c" and r': "\<forall>c \<in> set r'. IS_FLOAT c" using assms(2) r by simp_all
  have "float_run 1 (r' @ rest) = r' @ float_run (1 + length r') rest"
    by (rule float_run_app[OF r']) (use assms(4) r in simp)
  also have "float_run (1 + length r') rest = []"
    by (rule float_run_stop) (use assms(3) in blast)
  finally have f: "float_run 1 (r' @ rest) = r'" by simp
  show ?thesis unfolding r using lexemes_float[OF c, of L "r' @ rest"] f by simp
qed

lemma lexemes_long_run:
  assumes "\<forall>c \<in> set r. IS_FLOAT c" "15 < length r"
  shows "lexemes L (r @ rest) = TokNum (c_strtod L (take 15 r)) # lexemes L (drop 15 r @ rest)"
proof -
  obtain c r' where r: "r = c # r'" using assms(2) by (cases r) auto
  have c: "IS_FLOAT c" and r': "\<forall>c \<in> set r'. IS_FLOAT c" using assms(1) r by simp_all
  have l: "14 < length r'" using assms(2) r by simp
  have p: "\<forall>c \<in> set (take 14 r'). IS_FLOAT c" using r' by (meson in_set_takeD)
  have "float_run 1 (take 14 r' @ (drop 14 r' @ rest))
          = take 14 r' @ float_run (1 + length (take 14 r')) (drop 14 r' @ rest)"
    by (rule float_run_app[OF p]) simp
  also have "float_run (1 + length (take 14 r')) (drop 14 r' @ rest) = []"
    by (rule float_run_stop) (use l in simp)
  finally have "float_run 1 (take 14 r' @ (drop 14 r' @ rest)) = take 14 r'" by simp
  moreover have "take 14 r' @ (drop 14 r' @ rest) = r' @ rest"
    by (simp only: append_assoc[symmetric] append_take_drop_id)
  ultimately have f: "float_run 1 (r' @ rest) = take 14 r'" by simp
  have t: "take 15 (c # r') = c # take 14 r'" by (simp add: take_Cons')
  have d: "drop 15 (c # r') = drop 14 r'" by (simp add: drop_Cons')
  show ?thesis unfolding r t d using lexemes_float[OF c, of L "r' @ rest"] f l by simp
qed

lemma digits_accepted:
  assumes "\<forall>c \<in> set expr. IS_FLOAT c"
  shows "\<exists>s'. tokenize L expr s = Inr s'"
proof -
  have n: "\<forall>c \<in> set expr. c \<noteq> CHR 0x00 \<and> c \<noteq> CHR ''('' \<and> c \<noteq> CHR '')'' \<and> recognized c"
    using assms class_plain by blast
  then have c: "c_str expr = expr" by (simp add: c_str_def)
  have z: "count_list xs (CHR ''('') = 0 \<and> count_list xs (CHR '')'') = 0" if "set xs \<subseteq> set expr" for xs
    using that n by (induction xs) auto
  have pd: "paren_depth (take i expr) = 0" for i
    using z[of "take i expr"] by (simp add: paren_depth_def set_take_subset)
  have "paren_depth expr = 0" using z[of expr] by (simp add: paren_depth_def)
  then have "\<not> (\<exists>e. tokenize L expr s = Inl e)"
    unfolding tokenize_fails_iff c using n pd by auto
  then show ?thesis by (cases "tokenize L expr s") auto
qed

lemma tokens_digits:
  "tokenize L ''123456789012345'' init_state =
     Inr \<lparr>toks = [TokOp (CHR ''(''), TokNum (c_strtod L ''123456789012345''), TokOp (CHR '')'')],
          toks_size = 3\<rparr>"
  "tokenize L ''1234567890123456'' init_state =
     Inr \<lparr>toks = [TokOp (CHR ''(''), TokNum (c_strtod L ''123456789012345''), TokOp (CHR ''*''),
                  TokNum (c_strtod L ''6''), TokOp (CHR '')'')], toks_size = 5\<rparr>"
  "run 50 L ''1234567890123456'' = Some (Inr (c_mul L (c_strtod L ''123456789012345'') (c_strtod L ''6'')))"
  by (simp_all add: run_defs cong: run_congs)

lemma exact_strtod_digits:
  "exact_strtod ''123456789012345'' = 123456789012345" "exact_strtod ''6'' = 6"
  by (simp_all add: exact_strtod_def is_digit_def dec_val_def)

text \<open>
  Claim C8, as amended: a run of more than 15 characters is not parsed as a single number
  (see the counterexample below).

  A maximal run of at most 15 digits and points is cut from the input as one number, the
  value the library's \<open>strtod\<close> gives to the run.  Of a longer run the first 15 characters
  are cut as one number, and the scan goes on at the 16th character: the rest of the run is
  read as a further number (or several), and since a number follows a number a
  multiplication sign is inserted before it.  No length of a run is an error: an input of
  digits and points only is always tokenized.  Whenever \<open>tokenize\<close> returns, the buffer
  holds the first 65536 tokens of \<open>token_seq\<close>, which is built from these numbers.
\<close>

theorem number_runs:
  "(\<forall>r rest. r \<noteq> [] \<and> (\<forall>c \<in> set r. IS_FLOAT c) \<and> (rest = [] \<or> \<not> IS_FLOAT (hd rest))
        \<and> length r \<le> 15
      \<longrightarrow> lexemes L (r @ rest) = TokNum (c_strtod L r) # lexemes L rest)
   \<and> (\<forall>r rest. (\<forall>c \<in> set r. IS_FLOAT c) \<and> 15 < length r
      \<longrightarrow> lexemes L (r @ rest) = TokNum (c_strtod L (take 15 r)) # lexemes L (drop 15 r @ rest))
   \<and> (\<forall>x y. implicit_mul (TokNum x :: 'r Tok) (TokNum y))
   \<and> (\<forall>s'. tokenize L expr init_state = Inr s'
       \<longrightarrow> live s' = take TOKS_CAP (token_seq L expr) \<and> toks_size s' = length (toks s'))
   \<and> ((\<forall>c \<in> set expr. IS_FLOAT c) \<longrightarrow> (\<exists>s'. tokenize L expr s = Inr s'))
   \<and> tokenize L ''123456789012345'' init_state =
       Inr \<lparr>toks = [TokOp (CHR ''(''), TokNum (c_strtod L ''123456789012345''), TokOp (CHR '')'')],
            toks_size = 3\<rparr>
   \<and> tokenize L ''1234567890123456'' init_state =
       Inr \<lparr>toks = [TokOp (CHR ''(''), TokNum (c_strtod L ''123456789012345''), TokOp (CHR ''*''),
                    TokNum (c_strtod L ''6''), TokOp (CHR '')'')], toks_size = 5\<rparr>
   \<and> run 50 L ''1234567890123456'' =
       Some (Inr (c_mul L (c_strtod L ''123456789012345'') (c_strtod L ''6'')))"
proof -
  have 1: "\<forall>r rest. r \<noteq> [] \<and> (\<forall>c \<in> set r. IS_FLOAT c) \<and> (rest = [] \<or> \<not> IS_FLOAT (hd rest))
        \<and> length r \<le> 15
      \<longrightarrow> lexemes L (r @ rest) = TokNum (c_strtod L r) # lexemes L rest"
    using lexemes_short_run[of _ _ L] by blast
  have 2: "\<forall>r rest. (\<forall>c \<in> set r. IS_FLOAT c) \<and> 15 < length r
      \<longrightarrow> lexemes L (r @ rest) = TokNum (c_strtod L (take 15 r)) # lexemes L (drop 15 r @ rest)"
    using lexemes_long_run[of _ L] by blast
  have 3: "\<forall>x y. implicit_mul (TokNum x :: 'r Tok) (TokNum y)" by (simp add: implicit_mul_def)
  have 4: "\<forall>s'. tokenize L expr init_state = Inr s'
       \<longrightarrow> live s' = take TOKS_CAP (token_seq L expr) \<and> toks_size s' = length (toks s')"
    using tokenize_token_seq[of L expr] by blast
  have 5: "(\<forall>c \<in> set expr. IS_FLOAT c) \<longrightarrow> (\<exists>s'. tokenize L expr s = Inr s')"
    using digits_accepted[of expr L s] by blast
  show ?thesis by (intro conjI 1 2 3 4 5 tokens_digits)
qed

text \<open>
  The claim as stated fails for a run of 16 digits: it is not one number token, and its
  value is not that of a truncated literal.  The 16th digit is a number of its own and the
  input is read as the product \<open>123456789012345 * 6\<close>.
\<close>

theorem long_number_counterexample:
  "tokenize exact_libm ''1234567890123456'' init_state =
     Inr \<lparr>toks = [TokOp (CHR ''(''), TokNum 123456789012345, TokOp (CHR ''*''), TokNum 6,
                  TokOp (CHR '')'')], toks_size = 5\<rparr>
   \<and> run 50 exact_libm ''1234567890123456'' = Some (Inr 740740734074070)"
  using tokens_digits(2,3)[of exact_libm] by (simp add: exact_libm_def exact_strtod_digits)

theorem number_runs_witness:
  "lexemes exact_libm ''12.5+1'' = TokNum (exact_strtod ''12.5'') # lexemes exact_libm ''+1''
   \<and> lexemes exact_libm ''1234567890123456+1''
       = TokNum (exact_strtod ''123456789012345'') # lexemes exact_libm ''6+1''
   \<and> (\<exists>s'. tokenize exact_libm ''1234567890123456'' init_state = Inr s'
         \<and> live s' = take TOKS_CAP (token_seq exact_libm ''1234567890123456''))"
proof -
  note th = number_runs[of exact_libm "''1234567890123456''" init_state, where 'r = real]
  have a: "''12.5'' \<noteq> [] \<and> (\<forall>c \<in> set ''12.5''. IS_FLOAT c) \<and> (''+1'' = [] \<or> \<not> IS_FLOAT (hd ''+1''))
      \<and> length ''12.5'' \<le> 15"
    by (simp add: IS_FLOAT_def)
  from th[THEN conjunct1, rule_format, OF a]
  have r1: "lexemes exact_libm ''12.5+1'' = TokNum (exact_strtod ''12.5'') # lexemes exact_libm ''+1''"
    by (simp add: exact_libm_def)
  have b: "(\<forall>c \<in> set ''1234567890123456''. IS_FLOAT c) \<and> 15 < length ''1234567890123456''"
    by (simp add: IS_FLOAT_def)
  from th[THEN conjunct2, THEN conjunct1, rule_format, OF b, of "''+1''"]
  have r2: "lexemes exact_libm ''1234567890123456+1''
       = TokNum (exact_strtod ''123456789012345'') # lexemes exact_libm ''6+1''"
    by (simp add: exact_libm_def)
  from th[THEN conjunct2, THEN conjunct2, THEN conjunct2, THEN conjunct2, THEN conjunct1] b
  obtain s' where s: "tokenize exact_libm ''1234567890123456'' init_state = Inr s'" by blast
  from th[THEN conjunct2, THEN conjunct2, THEN conjunct2, THEN conjunct1, rule_format, OF s]
  have "live s' = take TOKS_CAP (token_seq exact_libm ''1234567890123456'')" by simp
  then show ?thesis using r1 r2 s by blast
qed

section \<open>The full buffer\<close>

lemma tokenize_Inl_iff:
  "(tokenize L expr s = Inl e) =
     (scan (c_str expr) 0 0 = Inl e
      \<or> (\<exists>d. scan (c_str expr) 0 0 = Inr d \<and> 0 < d \<and> e = UnmatchedOpenParen))"
proof (cases "scan (c_str expr) 0 0")
  case (Inl e')
  then show ?thesis using tokenize_scan(1)[OF Inl, of L s] by auto
next
  case (Inr d)
  show ?thesis
  proof (cases "0 < d")
    case True
    then show ?thesis using tokenize_scan(2)[OF Inr True, of L s] Inr by auto
  next
    case False
    then have "d = 0" by simp
    then show ?thesis using tokenize_scan(3)[of expr L s] Inr by auto
  qed
qed

lemma tokenize_error_indep: "(tokenize L expr s = Inl e) = (tokenize L expr s0 = Inl e)"
  unfolding tokenize_Inl_iff ..

lemma tokenize_succeeds_iff:
  "(\<exists>s'. tokenize L expr s = Inr s') =
     ((\<forall>c \<in> set (c_str expr). recognized c)
      \<and> (\<forall>i \<le> length (c_str expr). 0 \<le> paren_depth (take i (c_str expr)))
      \<and> paren_depth (c_str expr) = 0)"
proof -
  have "(\<exists>s'. tokenize L expr s = Inr s') = (\<not> (\<exists>e. tokenize L expr s = Inl e))"
    by (cases "tokenize L expr s") auto
  also have "\<dots> = (\<not> ((\<exists>c \<in> set (c_str expr). \<not> recognized c)
      \<or> (\<exists>i \<le> length (c_str expr). paren_depth (take i (c_str expr)) < 0)
      \<or> 0 < paren_depth (c_str expr)))"
    unfolding tokenize_fails_iff ..
  also have "\<dots> = ((\<forall>c \<in> set (c_str expr). recognized c)
      \<and> (\<forall>i \<le> length (c_str expr). 0 \<le> paren_depth (take i (c_str expr)))
      \<and> paren_depth (c_str expr) = 0)"
  proof -
    have "0 \<le> paren_depth (c_str expr)"
      if "\<forall>i \<le> length (c_str expr). 0 \<le> paren_depth (take i (c_str expr))"
      using that[rule_format, of "length (c_str expr)"] by simp
    then show ?thesis by (auto simp: not_less)
  qed
  finally show ?thesis .
qed

lemma truncated:
  assumes "tokenize L expr init_state = Inr s'"
  shows "live s' = take TOKS_CAP (token_seq L expr)" "toks_size s' = length (toks s')"
    "TOKS_CAP < length (token_seq L expr) \<Longrightarrow> length (live s') = TOKS_CAP \<and> live s' \<noteq> token_seq L expr"
proof -
  show l: "live s' = take TOKS_CAP (token_seq L expr)" by (rule tokenize_token_seq(3)[OF assms])
  show "toks_size s' = length (toks s')" by (rule tokenize_token_seq(2)[OF assms])
  assume c: "TOKS_CAP < length (token_seq L expr)"
  then have "length (live s') = TOKS_CAP" using l by simp
  then show "length (live s') = TOKS_CAP \<and> live s' \<noteq> token_seq L expr" using c by auto
qed

lemma live_buf: "live (buf xs) = xs"
  by (simp add: live_def buf_def)

lemma big_truncated:
  "TOKS_CAP < length (token_seq L big_expr)"
  "last (big_toks L) = TokNum (c_strtod L ''1'')"
  "last (token_seq L big_expr) = TokOp (CHR '')'')"
proof -
  show n: "last (big_toks L) = TokNum (c_strtod L ''1'')" by (simp add: big_toks_def)
  show p: "last (token_seq L big_expr) = TokOp (CHR '')'')" by (simp add: token_seq_def)
  have l: "big_toks L = take TOKS_CAP (token_seq L big_expr)"
    using truncated(1)[OF tokenize_big, of L] by (simp add: live_buf)
  show "TOKS_CAP < length (token_seq L big_expr)"
  proof (rule ccontr)
    assume "\<not> TOKS_CAP < length (token_seq L big_expr)"
    then have "big_toks L = token_seq L big_expr" using l by simp
    then show False using n p by simp
  qed
qed

text \<open>
  Claim C10.  On a buffer that holds 65536 tokens \<open>push_tok\<close> changes nothing, whatever
  the token.  Whether \<open>tokenize\<close> fails, and with which error, does not depend on the
  buffer: it returns exactly when every character of the input is recognized and the
  parentheses are balanced, however many tokens the input has, and the only errors are the
  three of the scan.  When it returns, the buffer holds the first 65536 tokens of the
  token sequence of the input, so for an input with more tokens the result has 65536 tokens
  and is not the token sequence of the input.  \<open>big_expr\<close>, the chain \<open>1^1^...^1\<close> with
  32768 operands, is such an input: the result ends with the last operand, and the closing
  wrapper that ends the token sequence is missing.
\<close>

theorem capacity_truncates:
  "(\<forall>t s. toks_size s = TOKS_CAP \<longrightarrow> push_tok t (s :: 'r state) = s)
   \<and> (\<forall>e s0. (tokenize L expr s = Inl e) = (tokenize L expr s0 = Inl e))
   \<and> (\<forall>e. tokenize L expr s = Inl e
        \<longrightarrow> (\<exists>i c. e = UnrecognizedCharacter i c) \<or> e = UnmatchedCloseParen \<or> e = UnmatchedOpenParen)
   \<and> ((\<exists>s'. tokenize L expr s = Inr s') =
        ((\<forall>c \<in> set (c_str expr). recognized c)
         \<and> (\<forall>i \<le> length (c_str expr). 0 \<le> paren_depth (take i (c_str expr)))
         \<and> paren_depth (c_str expr) = 0))
   \<and> (\<forall>s'. tokenize L expr init_state = Inr s'
        \<longrightarrow> live s' = take TOKS_CAP (token_seq L expr) \<and> toks_size s' = length (toks s')
            \<and> (TOKS_CAP < length (token_seq L expr)
                 \<longrightarrow> length (live s') = TOKS_CAP \<and> live s' \<noteq> token_seq L expr))
   \<and> tokenize L big_expr init_state = Inr (buf (big_toks L))
   \<and> length (big_toks L) = TOKS_CAP
   \<and> TOKS_CAP < length (token_seq L big_expr)
   \<and> last (big_toks L) = TokNum (c_strtod L ''1'')
   \<and> last (token_seq L big_expr) = TokOp (CHR '')'')"
proof -
  have 1: "\<forall>t s. toks_size s = TOKS_CAP \<longrightarrow> push_tok t (s :: 'r state) = s"
    using push_tok_full by blast
  have 2: "\<forall>e s0. (tokenize L expr s = Inl e) = (tokenize L expr s0 = Inl e)"
    using tokenize_error_indep[of L expr s] by blast
  have 3: "\<forall>e. tokenize L expr s = Inl e
        \<longrightarrow> (\<exists>i c. e = UnrecognizedCharacter i c) \<or> e = UnmatchedCloseParen \<or> e = UnmatchedOpenParen"
    using tokenize_error_kinds[of L expr s] by blast
  have 4: "(\<exists>s'. tokenize L expr s = Inr s') =
        ((\<forall>c \<in> set (c_str expr). recognized c)
         \<and> (\<forall>i \<le> length (c_str expr). 0 \<le> paren_depth (take i (c_str expr)))
         \<and> paren_depth (c_str expr) = 0)"
    by (rule tokenize_succeeds_iff)
  have 5: "\<forall>s'. tokenize L expr init_state = Inr s'
        \<longrightarrow> live s' = take TOKS_CAP (token_seq L expr) \<and> toks_size s' = length (toks s')
            \<and> (TOKS_CAP < length (token_seq L expr)
                 \<longrightarrow> length (live s') = TOKS_CAP \<and> live s' \<noteq> token_seq L expr)"
    using truncated[of L expr] by blast
  show ?thesis by (intro conjI 1 2 3 4 5 tokenize_big length_big_toks big_truncated)
qed

theorem capacity_truncates_witness:
  "toks_size (buf (big_toks exact_libm)) = TOKS_CAP
   \<and> push_tok (TokOp (CHR '')'')) (buf (big_toks exact_libm)) = buf (big_toks exact_libm)
   \<and> tokenize exact_libm big_expr init_state = Inr (buf (big_toks exact_libm))
   \<and> TOKS_CAP < length (token_seq exact_libm big_expr)
   \<and> live (buf (big_toks exact_libm)) = take TOKS_CAP (token_seq exact_libm big_expr)
   \<and> length (live (buf (big_toks exact_libm))) = TOKS_CAP
   \<and> live (buf (big_toks exact_libm)) \<noteq> token_seq exact_libm big_expr
   \<and> paren_depth (c_str big_expr) = 0"
proof -
  note th = capacity_truncates[of exact_libm big_expr init_state, where 'r = real]
  have a: "toks_size (buf (big_toks exact_libm)) = TOKS_CAP"
    by (simp add: buf_def length_big_toks)
  from th[THEN conjunct1, rule_format, OF a]
  have b: "push_tok (TokOp (CHR '')'')) (buf (big_toks exact_libm)) = buf (big_toks exact_libm)" .
  note c4 = th[THEN conjunct2, THEN conjunct2, THEN conjunct2, THEN conjunct1]
  note r = th[THEN conjunct2, THEN conjunct2, THEN conjunct2, THEN conjunct2]
  have t: "tokenize exact_libm big_expr init_state = Inr (buf (big_toks exact_libm))"
    using r by blast
  have g: "TOKS_CAP < length (token_seq exact_libm big_expr)" using r by blast
  from r[THEN conjunct1, rule_format, OF t] g
  have d: "live (buf (big_toks exact_libm)) = take TOKS_CAP (token_seq exact_libm big_expr)"
    "length (live (buf (big_toks exact_libm))) = TOKS_CAP"
    "live (buf (big_toks exact_libm)) \<noteq> token_seq exact_libm big_expr" by blast+
  have "\<exists>s'. tokenize exact_libm big_expr init_state = Inr s'" using t by blast
  then have e: "paren_depth (c_str big_expr) = 0" unfolding c4 by blast
  show ?thesis using a b t g d e by blast
qed

end
